theory Spec2Isabelle
  imports Complex_Main "HOL-Library.Multiset"
begin

section \<open>Numbers, vectors and the p5.js helpers used by sketch.js\<close>

text \<open>
  JavaScript numbers are modelled as mathematical reals: rounding, overflow and NaN are
  abstracted away.  A \<^verbatim>\<open>p5.Vector\<close> is a record of its two planar components
  (the third component stays 0 in this sketch).  The p5.js library functions the sketch
  calls (\<^verbatim>\<open>dist\<close>, \<^verbatim>\<open>map\<close>, \<^verbatim>\<open>constrain\<close>, \<^verbatim>\<open>mag\<close>, \<^verbatim>\<open>normalize\<close>, \<^verbatim>\<open>limit\<close>,
  \<^verbatim>\<open>random2D\<close>) are written out after their library source.

  Names follow the source.  Where a field name of the source is taken in HOL it gets a
  prefix: \<open>vx\<close>, \<open>vy\<close> for the components of a vector, \<open>b_x\<close>, \<open>b_y\<close>, \<open>b_w\<close>, \<open>b_h\<close> for the
  fields of a \<^verbatim>\<open>Boundary\<close>, \<open>c_x\<close>, \<open>c_y\<close>, \<open>c_r\<close> for those of a \<^verbatim>\<open>Circle\<close>, \<open>psize\<close> for
  \<^verbatim>\<open>Particle.size\<close>, \<open>p5map\<close> for \<^verbatim>\<open>map\<close> and \<open>rng\<close> for a parameter called \<^verbatim>\<open>range\<close>.
\<close>

record vec =
  vx :: real
  vy :: real

definition createVector :: "real \<Rightarrow> real \<Rightarrow> vec" where
  "createVector a b = \<lparr>vx = a, vy = b\<rparr>"

definition vsub :: "vec \<Rightarrow> vec \<Rightarrow> vec" where
  \<comment> \<open>\<^verbatim>\<open>p5.Vector.sub(a, b)\<close>\<close>
  "vsub a b = \<lparr>vx = vx a - vx b, vy = vy a - vy b\<rparr>"

definition vadd :: "vec \<Rightarrow> vec \<Rightarrow> vec" where
  \<comment> \<open>\<^verbatim>\<open>a.add(b)\<close>\<close>
  "vadd a b = \<lparr>vx = vx a + vx b, vy = vy a + vy b\<rparr>"

definition vmult :: "vec \<Rightarrow> real \<Rightarrow> vec" where
  \<comment> \<open>\<^verbatim>\<open>a.mult(n)\<close>\<close>
  "vmult a n = \<lparr>vx = vx a * n, vy = vy a * n\<rparr>"

definition vdiv :: "vec \<Rightarrow> real \<Rightarrow> vec" where
  \<comment> \<open>\<^verbatim>\<open>a.div(n)\<close>\<close>
  "vdiv a n = \<lparr>vx = vx a / n, vy = vy a / n\<rparr>"

definition magSq :: "vec \<Rightarrow> real" where
  "magSq a = vx a * vx a + vy a * vy a"

definition mag :: "vec \<Rightarrow> real" where
  "mag a = sqrt (magSq a)"

definition normalize :: "vec \<Rightarrow> vec" where
  \<comment> \<open>\<^verbatim>\<open>const len = this.mag(); if (len !== 0) this.mult(1 / len);\<close>\<close>
  "normalize a = (let len = mag a in if len \<noteq> 0 then vmult a (1 / len) else a)"

definition limit :: "vec \<Rightarrow> real \<Rightarrow> vec" where
  \<comment> \<open>\<^verbatim>\<open>const mSq = this.magSq(); if (mSq > max * max) this.div(Math.sqrt(mSq)).mult(max);\<close>\<close>
  "limit a mx = (let mSq = magSq a in
     if mSq > mx * mx then vmult (vdiv a (sqrt mSq)) mx else a)"

definition random2D :: "real \<Rightarrow> vec" where
  \<comment> \<open>\<^verbatim>\<open>p5.Vector.random2D()\<close> is \<^verbatim>\<open>fromAngle(random(TWO_PI))\<close>; the drawn angle is an input.\<close>
  "random2D angle = \<lparr>vx = cos angle, vy = sin angle\<rparr>"

definition constrain :: "real \<Rightarrow> real \<Rightarrow> real \<Rightarrow> real" where
  \<comment> \<open>\<^verbatim>\<open>Math.max(Math.min(n, high), low)\<close>\<close>
  "constrain n low high = max (min n high) low"

definition dist :: "real \<Rightarrow> real \<Rightarrow> real \<Rightarrow> real \<Rightarrow> real" where
  \<comment> \<open>\<^verbatim>\<open>dist(x1, y1, x2, y2)\<close> is \<^verbatim>\<open>Math.hypot(x2 - x1, y2 - y1)\<close>\<close>
  "dist x1 y1 x2 y2 = sqrt ((x2 - x1) * (x2 - x1) + (y2 - y1) * (y2 - y1))"

definition p5map :: "real \<Rightarrow> real \<Rightarrow> real \<Rightarrow> real \<Rightarrow> real \<Rightarrow> real" where
  \<comment> \<open>\<^verbatim>\<open>map(n, start1, stop1, start2, stop2)\<close>\<close>
  "p5map n start1 stop1 start2 stop2 =
     (n - start1) / (stop1 - start1) * (stop2 - start2) + start2"

definition js_rem :: "real \<Rightarrow> real \<Rightarrow> real" where
  \<comment> \<open>the JavaScript operator \<^verbatim>\<open>%\<close>: the remainder takes the sign of the dividend\<close>
  "js_rem a b = (let q = a / b in
     a - b * (if 0 \<le> q then of_int \<lfloor>q\<rfloor> else of_int \<lceil>q\<rceil>))"

section \<open>Configuration constants\<close>

definition numParticles :: nat where "numParticles = 150"
definition maxSpeed :: real where "maxSpeed = 2"
definition particleSize :: real where "particleSize = 5"
definition connectionDistance :: real where "connectionDistance = 120"

section \<open>Particles\<close>

record particle =
  pos :: vec
  vel :: vec
  acc :: vec
  hue :: real
  baseSize :: real
  psize :: real
  pulseSpeed :: real
  pulseOffset :: real

text \<open>
  The p5.js globals a frame reads: the pointer (\<^verbatim>\<open>mouseIsPressed\<close>, \<^verbatim>\<open>mouseX\<close>, \<^verbatim>\<open>mouseY\<close>), the
  canvas size (\<^verbatim>\<open>width\<close>, \<^verbatim>\<open>height\<close>) and the frame counter.
\<close>

record env =
  mouseIsPressed :: bool
  mouseX :: real
  mouseY :: real
  width :: real
  height :: real
  frameCount :: real

text \<open>
  \<^verbatim>\<open>Particle.update()\<close>, statement by statement.  The arguments are the p5.js globals, the
  sketch's global \<^verbatim>\<open>repulsionMode\<close> and the angle drawn by the call of \<^verbatim>\<open>random2D\<close>.
  In \<open>update_acc\<close> the branch of a pressed mouse at distance at most 5 assigns nothing:
  \<^verbatim>\<open>this.acc\<close> is left as it was.
\<close>

definition update_acc :: "env \<Rightarrow> bool \<Rightarrow> particle \<Rightarrow> vec" where
  "update_acc e repulsionMode p =
     (if mouseIsPressed e then
        (let mouse = createVector (mouseX e) (mouseY e);
             dir = vsub mouse (pos p);
             distance = mag dir
         in if distance > 5 then
              (let dir1 = normalize dir;
                   dir2 = (if repulsionMode then vmult dir1 (- 1) else dir1);
                   strength = constrain (1 / (distance * 0.03)) 0 0.8
               in vmult dir2 strength)
            else acc p)
      else createVector 0 0)"

definition wrap_edges :: "env \<Rightarrow> vec \<Rightarrow> vec" where
  "wrap_edges e q =
     (let x1 = (if vx q < 0 then width e else vx q);
          x2 = (if x1 > width e then 0 else x1);
          y1 = (if vy q < 0 then height e else vy q);
          y2 = (if y1 > height e then 0 else y1)
      in \<lparr>vx = x2, vy = y2\<rparr>)"

definition update :: "env \<Rightarrow> bool \<Rightarrow> real \<Rightarrow> particle \<Rightarrow> particle" where
  "update e repulsionMode angle p =
     (let acc1 = update_acc e repulsionMode p;
          acc2 = vadd acc1 (vmult (random2D angle) 0.01);
          vel1 = vadd (vel p) acc2;
          vel2 = limit vel1 maxSpeed;
          pos1 = vadd (pos p) vel2;
          vel3 = vmult vel2 0.99;
          pos2 = wrap_edges e pos1;
          size1 = baseSize p + sin (frameCount e * pulseSpeed p + pulseOffset p) * (baseSize p * 0.3);
          hue1 = js_rem (hue p + 0.1) 360
      in p\<lparr>pos := pos2, vel := vel3, acc := acc2, psize := size1, hue := hue1\<rparr>)"

definition pos_before_wrap :: "env \<Rightarrow> bool \<Rightarrow> real \<Rightarrow> particle \<Rightarrow> vec" where
  \<comment> \<open>the value of \<^verbatim>\<open>this.pos\<close> in \<open>update\<close> after \<^verbatim>\<open>this.pos.add(this.vel)\<close>, before the edge tests\<close>
  "pos_before_wrap e repulsionMode angle p =
     vadd (pos p)
       (limit (vadd (vel p) (vadd (update_acc e repulsionMode p) (vmult (random2D angle) 0.01)))
          maxSpeed)"

section \<open>Boundary and Circle\<close>

record boundary =
  b_x :: real
  b_y :: real
  b_w :: real
  b_h :: real

record circle =
  c_x :: real
  c_y :: real
  c_r :: real

definition Boundary :: "real \<Rightarrow> real \<Rightarrow> real \<Rightarrow> real \<Rightarrow> boundary" where
  "Boundary x y w h = \<lparr>b_x = x, b_y = y, b_w = w, b_h = h\<rparr>"

definition Circle :: "real \<Rightarrow> real \<Rightarrow> real \<Rightarrow> circle" where
  "Circle x y r = \<lparr>c_x = x, c_y = y, c_r = r\<rparr>"

definition contains :: "boundary \<Rightarrow> particle \<Rightarrow> bool" where
  "contains b point \<longleftrightarrow>
     vx (pos point) \<ge> b_x b - b_w b \<and>
     vx (pos point) < b_x b + b_w b \<and>
     vy (pos point) \<ge> b_y b - b_h b \<and>
     vy (pos point) < b_y b + b_h b"

definition intersects :: "boundary \<Rightarrow> circle \<Rightarrow> bool" where
  "intersects b rng \<longleftrightarrow>
     \<not> (c_x rng - c_r rng > b_x b + b_w b \<or>
        c_x rng + c_r rng < b_x b - b_w b \<or>
        c_y rng - c_r rng > b_y b + b_h b \<or>
        c_y rng + c_r rng < b_y b - b_h b)"

section \<open>The quadtree\<close>

text \<open>
  A \<^verbatim>\<open>QuadTree\<close> object is a node with its boundary, its capacity and its \<^verbatim>\<open>points\<close> array;
  \<open>Leaf\<close> is a node with \<^verbatim>\<open>divided == false\<close>, \<open>Divided\<close> a node with \<^verbatim>\<open>divided == true\<close>
  and its children \<^verbatim>\<open>northeast\<close>, \<^verbatim>\<open>northwest\<close>, \<^verbatim>\<open>southeast\<close>, \<^verbatim>\<open>southwest\<close>, in this order.
  The tree stores references to particle objects, and the objects are mutated after they are
  inserted, so a reference is modelled by the index of the object in the array \<^verbatim>\<open>particles\<close>
  and every function that reads \<^verbatim>\<open>p.pos\<close> takes the current array.  (The array holds pairwise
  distinct objects, each made by \<^verbatim>\<open>new Particle()\<close>, and is not restructured during a frame.)
\<close>

datatype quadtree =
  Leaf boundary nat "nat list"
| Divided boundary nat "nat list" quadtree quadtree quadtree quadtree

definition QuadTree :: "boundary \<Rightarrow> nat \<Rightarrow> quadtree" where
  \<comment> \<open>the constructor: no points, not divided\<close>
  "QuadTree b c = Leaf b c []"

fun boundary_of :: "quadtree \<Rightarrow> boundary" where
  "boundary_of (Leaf b c pts) = b"
| "boundary_of (Divided b c pts ne nw se sw) = b"

fun capacity :: "quadtree \<Rightarrow> nat" where
  "capacity (Leaf b c pts) = c"
| "capacity (Divided b c pts ne nw se sw) = c"

fun points :: "quadtree \<Rightarrow> nat list" where
  "points (Leaf b c pts) = pts"
| "points (Divided b c pts ne nw se sw) = pts"

fun divided :: "quadtree \<Rightarrow> bool" where
  "divided (Leaf b c pts) = False"
| "divided (Divided b c pts ne nw se sw) = True"

fun push_point :: "nat \<Rightarrow> quadtree \<Rightarrow> quadtree" where
  \<comment> \<open>\<^verbatim>\<open>this.points.push(point)\<close>\<close>
  "push_point r (Leaf b c pts) = Leaf b c (pts @ [r])"
| "push_point r (Divided b c pts ne nw se sw) = Divided b c (pts @ [r]) ne nw se sw"

definition subdivide :: "quadtree \<Rightarrow> quadtree" where
  \<comment> \<open>the node keeps its points; the four children are assigned afresh\<close>
  "subdivide t =
     (let x = b_x (boundary_of t); y = b_y (boundary_of t);
          w = b_w (boundary_of t) / 2; h = b_h (boundary_of t) / 2;
          ne = Boundary (x + w) (y - h) w h;
          nw = Boundary (x - w) (y - h) w h;
          se = Boundary (x + w) (y + h) w h;
          sw = Boundary (x - w) (y + h) w h
      in Divided (boundary_of t) (capacity t) (points t)
           (QuadTree ne (capacity t)) (QuadTree nw (capacity t))
           (QuadTree se (capacity t)) (QuadTree sw (capacity t)))"

text \<open>
  \<^verbatim>\<open>insert(point)\<close> returns the boolean and the mutated node.  The recursion of the source has
  no bound (a node of capacity 0 subdivides for ever), so the function is partial: \<open>None\<close>
  is a call that does not return.  The chain of \<^verbatim>\<open>||\<close> stops at the first child that accepts;
  a child that refuses may still have been mutated, so its new value is kept.  The \<open>Leaf\<close>
  branch of the inner case cannot be taken, since \<open>subdivide\<close> returns a divided node.
\<close>

partial_function (option)
  insert :: "particle list \<Rightarrow> nat \<Rightarrow> quadtree \<Rightarrow> (bool \<times> quadtree) option" where
  "insert ps r t =
     (if \<not> contains (boundary_of t) (ps ! r) then Some (False, t)
      else if length (points t) < capacity t then Some (True, push_point r t)
      else
        (case (if \<not> divided t then subdivide t else t) of
           Leaf b c pts \<Rightarrow> None
         | Divided b c pts ne nw se sw \<Rightarrow>
             Option.bind (insert ps r ne) (\<lambda>(ok1, ne').
               if ok1 then Some (True, Divided b c pts ne' nw se sw)
               else Option.bind (insert ps r nw) (\<lambda>(ok2, nw').
                 if ok2 then Some (True, Divided b c pts ne' nw' se sw)
                 else Option.bind (insert ps r se) (\<lambda>(ok3, se').
                   if ok3 then Some (True, Divided b c pts ne' nw' se' sw)
                   else Option.bind (insert ps r sw) (\<lambda>(ok4, sw').
                     Some (ok4, Divided b c pts ne' nw' se' sw')))))))"

text \<open>
  \<^verbatim>\<open>query(range, found)\<close> appends to the array it is given; \<open>draw\<close> always passes an array,
  so the default \<^verbatim>\<open>if (!found) found = []\<close> is not modelled.  The points of a node are
  tested whether or not the node is divided.
\<close>

definition in_range :: "particle list \<Rightarrow> circle \<Rightarrow> nat \<Rightarrow> bool" where
  \<comment> \<open>the test of the loop in \<^verbatim>\<open>query\<close>: \<^verbatim>\<open>dist(range.x, range.y, p.pos.x, p.pos.y) < range.r\<close>\<close>
  "in_range ps rng p \<longleftrightarrow>
     dist (c_x rng) (c_y rng) (vx (pos (ps ! p))) (vy (pos (ps ! p))) < c_r rng"

fun query :: "particle list \<Rightarrow> circle \<Rightarrow> quadtree \<Rightarrow> nat list \<Rightarrow> nat list" where
  "query ps rng (Leaf b c pts) found =
     (if \<not> intersects b rng then found
      else found @ filter (in_range ps rng) pts)"
| "query ps rng (Divided b c pts ne nw se sw) found =
     (if \<not> intersects b rng then found
      else query ps rng sw (query ps rng se (query ps rng nw (query ps rng ne
             (found @ filter (in_range ps rng) pts)))))"

section \<open>The sketch: draw and keyPressed\<close>

record sketch =
  particles :: "particle list"
  colorShift :: real
  repulsionMode :: bool
  useQuadtree :: bool
  quadtree :: quadtree

text \<open>A call of \<^verbatim>\<open>drawConnection\<close>: the two particles and what is handed to the renderer.\<close>

record connection =
  conn_p1 :: nat
  conn_p2 :: nat
  conn_alpha :: real
  conn_sw :: real
  conn_hue :: real

definition drawConnection :: "particle list \<Rightarrow> real \<Rightarrow> nat \<Rightarrow> nat \<Rightarrow> real \<Rightarrow> connection" where
  "drawConnection ps cshift p1 p2 distance =
     \<lparr>conn_p1 = p1, conn_p2 = p2,
      conn_alpha = p5map distance 0 connectionDistance 1 0,
      conn_sw = p5map distance 0 connectionDistance 2 0.1,
      conn_hue = js_rem (hue (ps ! p1) + cshift) 360\<rparr>"

definition indexOf :: "particle list \<Rightarrow> nat \<Rightarrow> int" where
  \<comment> \<open>\<^verbatim>\<open>particles.indexOf(neighbor)\<close>: the position of the object, or -1\<close>
  "indexOf ps neighbor = (if neighbor < length ps then int neighbor else - 1)"

definition pdist :: "particle list \<Rightarrow> nat \<Rightarrow> nat \<Rightarrow> real" where
  "pdist ps i j = dist (vx (pos (ps ! i))) (vy (pos (ps ! i))) (vx (pos (ps ! j))) (vy (pos (ps ! j)))"

definition indexed_connections :: "particle list \<Rightarrow> real \<Rightarrow> quadtree \<Rightarrow> nat \<Rightarrow> connection list" where
  \<comment> \<open>the branch \<^verbatim>\<open>if (useQuadtree)\<close> of the loop body\<close>
  "indexed_connections ps cshift qt i =
     (let rng = Circle (vx (pos (ps ! i))) (vy (pos (ps ! i))) connectionDistance;
          neighbors = query ps rng qt []
      in concat (map (\<lambda>neighbor.
           if neighbor = i \<or> indexOf ps neighbor \<le> int i then []
           else (let d = pdist ps i neighbor
                 in if d < connectionDistance then [drawConnection ps cshift i neighbor d] else []))
         neighbors))"

definition brute_connections :: "particle list \<Rightarrow> real \<Rightarrow> nat \<Rightarrow> connection list" where
  \<comment> \<open>the branch \<^verbatim>\<open>else\<close>: all \<^verbatim>\<open>j\<close> from \<^verbatim>\<open>i + 1\<close>\<close>
  "brute_connections ps cshift i =
     concat (map (\<lambda>j.
        (let d = pdist ps i j
         in if d < connectionDistance then [drawConnection ps cshift i j d] else []))
      [i + 1 ..< length ps])"

definition draw_particle ::
  "env \<Rightarrow> bool \<Rightarrow> (nat \<Rightarrow> real) \<Rightarrow> real \<Rightarrow> bool \<Rightarrow> quadtree \<Rightarrow> nat \<Rightarrow>
   particle list \<times> connection list \<Rightarrow> particle list \<times> connection list" where
  \<comment> \<open>one pass of the loop over \<^verbatim>\<open>i\<close>: update particle \<^verbatim>\<open>i\<close>, then connect it\<close>
  "draw_particle e rep angle cshift useQt qt i acc0 =
     (let ps = fst acc0; out = snd acc0;
          ps' = ps[i := update e rep (angle i) (ps ! i)]
      in (ps', out @ (if useQt then indexed_connections ps' cshift qt i
                      else brute_connections ps' cshift i)))"

fun insert_all :: "particle list \<Rightarrow> nat list \<Rightarrow> quadtree \<Rightarrow> quadtree option" where
  \<comment> \<open>\<^verbatim>\<open>for (let particle of particles) quadtree.insert(particle)\<close>: the result is dropped\<close>
  "insert_all ps [] qt = Some qt"
| "insert_all ps (r # rs) qt = Option.bind (insert ps r qt) (\<lambda>res. insert_all ps rs (snd res))"

definition root_boundary :: "env \<Rightarrow> boundary" where
  "root_boundary e = Boundary (width e / 2) (height e / 2) (width e / 2) (height e / 2)"

definition build_quadtree :: "env \<Rightarrow> particle list \<Rightarrow> quadtree option" where
  "build_quadtree e ps = insert_all ps [0 ..< length ps] (QuadTree (root_boundary e) 4)"

text \<open>
  \<^verbatim>\<open>draw()\<close> without the frame-rate bookkeeping and the rendering calls.  \<open>angle i\<close> is the
  angle drawn by \<^verbatim>\<open>random2D\<close> in the update of particle \<open>i\<close>.  The result is the new state of
  the sketch's globals and the calls of \<^verbatim>\<open>drawConnection\<close>, in order.
\<close>

definition draw :: "env \<Rightarrow> (nat \<Rightarrow> real) \<Rightarrow> sketch \<Rightarrow> (sketch \<times> connection list) option" where
  "draw e angle st =
     (let cshift = js_rem (colorShift st + 0.2) 360
      in Option.bind
           (if useQuadtree st then build_quadtree e (particles st) else Some (quadtree st))
           (\<lambda>qt.
              (let res = fold (draw_particle e (repulsionMode st) angle cshift (useQuadtree st) qt)
                           [0 ..< length (particles st)] (particles st, [])
               in Some (st\<lparr>particles := fst res, colorShift := cshift, quadtree := qt\<rparr>, snd res))))"

text \<open>
  \<^verbatim>\<open>new Particle()\<close>: \<open>u k\<close> is the \<open>k\<close>-th number drawn by \<^verbatim>\<open>Math.random\<close>, in \<open>[0, 1)\<close>;
  \<^verbatim>\<open>random(hi)\<close> is \<open>u * hi\<close> and \<^verbatim>\<open>random(lo, hi)\<close> is \<open>lo + u * (hi - lo)\<close>.
\<close>

definition Particle :: "env \<Rightarrow> (nat \<Rightarrow> real) \<Rightarrow> particle" where
  "Particle e u =
     (let bs = particleSize * 0.5 + u 5 * (particleSize * 1.5 - particleSize * 0.5)
      in \<lparr>pos = createVector (u 0 * width e) (u 1 * height e),
          vel = createVector (- maxSpeed + u 2 * (maxSpeed - (- maxSpeed)))
                             (- maxSpeed + u 3 * (maxSpeed - (- maxSpeed))),
          acc = createVector 0 0,
          hue = u 4 * 360,
          baseSize = bs,
          psize = bs,
          pulseSpeed = 0.02 + u 6 * (0.06 - 0.02),
          pulseOffset = u 7 * (2 * pi)\<rparr>)"

text \<open>
  \<^verbatim>\<open>keyPressed()\<close>: the five tests in the order of the source.  \<open>mk k\<close> is the \<open>k\<close>-th particle
  constructed during the call; \<^verbatim>\<open>pop()\<close> on an empty array does nothing.
\<close>

definition keyPressed :: "char \<Rightarrow> (nat \<Rightarrow> particle) \<Rightarrow> sketch \<Rightarrow> sketch" where
  "keyPressed key mk st =
     (let st1 = (if key = CHR ''r'' \<or> key = CHR ''R''
                 then st\<lparr>repulsionMode := \<not> repulsionMode st\<rparr> else st);
          st2 = (if key = CHR ''a'' \<or> key = CHR ''A''
                 then st1\<lparr>particles := particles st1 @ map mk [0 ..< 10]\<rparr> else st1);
          st3 = (if (key = CHR ''d'' \<or> key = CHR ''D'') \<and> length (particles st2) > 10
                 then st2\<lparr>particles := (butlast ^^ 10) (particles st2)\<rparr> else st2);
          st4 = (if key = CHR ''q'' \<or> key = CHR ''Q''
                 then st3\<lparr>useQuadtree := \<not> useQuadtree st3\<rparr> else st3);
          st5 = (if key = CHR '' '' \<and> length (particles st4) > 0
                 then st4\<lparr>particles := map mk [0 ..< numParticles]\<rparr> else st4)
      in st5)"

fun keys_pressed :: "(char \<times> (nat \<Rightarrow> particle)) list \<Rightarrow> sketch \<Rightarrow> sketch" where
  \<comment> \<open>a sequence of key events\<close>
  "keys_pressed [] st = st"
| "keys_pressed (k # ks) st = keys_pressed ks (keyPressed (fst k) (snd k) st)"

section \<open>Auxiliary notions for the proofs\<close>

text \<open>
  The pieces of the body of \<open>insert\<close>, named: \<open>full_at\<close> is the condition under which
  the call reaches the children, \<open>descend\<close> the node after the conditional \<^verbatim>\<open>subdivide()\<close>,
  and \<open>kids f\<close> the chain of \<^verbatim>\<open>||\<close> over the four children with \<open>f\<close> for the recursive calls.
\<close>

definition descend :: "quadtree \<Rightarrow> quadtree" where
  "descend t = (if \<not> divided t then subdivide t else t)"

definition full_at :: "particle list \<Rightarrow> nat \<Rightarrow> quadtree \<Rightarrow> bool" where
  "full_at ps r t \<longleftrightarrow> contains (boundary_of t) (ps ! r) \<and> \<not> length (points t) < capacity t"

definition kids :: "(quadtree \<Rightarrow> (bool \<times> quadtree) option) \<Rightarrow> quadtree \<Rightarrow> (bool \<times> quadtree) option" where
  "kids f t =
     (case t of
        Leaf b c pts \<Rightarrow> None
      | Divided b c pts ne nw se sw \<Rightarrow>
          Option.bind (f ne) (\<lambda>(ok1, ne').
            if ok1 then Some (True, Divided b c pts ne' nw se sw)
            else Option.bind (f nw) (\<lambda>(ok2, nw').
              if ok2 then Some (True, Divided b c pts ne' nw' se sw)
              else Option.bind (f se) (\<lambda>(ok3, se').
                if ok3 then Some (True, Divided b c pts ne' nw' se' sw)
                else Option.bind (f sw) (\<lambda>(ok4, sw').
                  Some (ok4, Divided b c pts ne' nw' se' sw'))))))"

text \<open>
  The trees that calls of \<open>insert\<close> can produce from a freshly constructed node.  The array
  of particles may differ from call to call.
\<close>

inductive reachable :: "quadtree \<Rightarrow> bool" where
  init: "reachable (QuadTree b c)"
| step: "reachable t \<Longrightarrow> insert ps r t = Some (ok, t') \<Longrightarrow> reachable t'"

text \<open>
  The shape of a node: a leaf holds at most \<open>capacity\<close> points; a divided node holds
  exactly \<open>capacity\<close> points, and its children have its capacity.
\<close>

fun node_inv :: "quadtree \<Rightarrow> bool" where
  "node_inv (Leaf b c pts) = (length pts \<le> c)"
| "node_inv (Divided b c pts ne nw se sw) =
     (length pts = c \<and> capacity ne = c \<and> capacity nw = c \<and> capacity se = c \<and> capacity sw = c \<and>
      node_inv ne \<and> node_inv nw \<and> node_inv se \<and> node_inv sw)"

text \<open>
  The array \<^verbatim>\<open>particles\<close> after the first \<open>k\<close> passes of the loop of \<open>draw\<close> over an array
  that was \<open>ps\<close> at the start of the frame, and the connections that pass \<open>i\<close> emits.
\<close>

definition updated_upto :: "env \<Rightarrow> bool \<Rightarrow> (nat \<Rightarrow> real) \<Rightarrow> particle list \<Rightarrow> nat \<Rightarrow> particle list" where
  "updated_upto e rep angle ps k =
     map (\<lambda>j. if j < k then update e rep (angle j) (ps ! j) else ps ! j) [0 ..< length ps]"

definition step_connections ::
  "env \<Rightarrow> bool \<Rightarrow> (nat \<Rightarrow> real) \<Rightarrow> real \<Rightarrow> bool \<Rightarrow> quadtree \<Rightarrow> particle list \<Rightarrow> nat \<Rightarrow> connection list" where
  "step_connections e rep angle cshift useQt qt ps i =
     (if useQt then indexed_connections (updated_upto e rep angle ps (Suc i)) cshift qt i
      else brute_connections (updated_upto e rep angle ps (Suc i)) cshift i)"

text \<open>
  All references held by a tree, in the order in which \<open>query\<close> visits them, and the pair
  of particles of a connection.
\<close>

fun all_points :: "quadtree \<Rightarrow> nat list" where
  "all_points (Leaf b c pts) = pts"
| "all_points (Divided b c pts ne nw se sw) =
     pts @ all_points ne @ all_points nw @ all_points se @ all_points sw"

definition conn_pair :: "connection \<Rightarrow> nat \<times> nat" where
  "conn_pair c = (conn_p1 c, conn_p2 c)"
text \<open>
  \<open>stored ps r t\<close>: the reference \<open>r\<close> is held by a node of \<open>t\<close> such that the boundary
  of this node and of each of its ancestors contains the position that particle \<open>r\<close> has
  in the array \<open>ps\<close>; a query that comes close enough to that position reaches the node.
  \<open>quad_inv\<close>: the boundaries of the children of every divided node are the four
  quadrants that \<open>subdivide\<close> computes.
\<close>

fun stored :: "particle list \<Rightarrow> nat \<Rightarrow> quadtree \<Rightarrow> bool" where
  "stored ps r (Leaf b c pts) \<longleftrightarrow> contains b (ps ! r) \<and> r \<in> set pts"
| "stored ps r (Divided b c pts ne nw se sw) \<longleftrightarrow>
     contains b (ps ! r) \<and>
     (r \<in> set pts \<or> stored ps r ne \<or> stored ps r nw \<or> stored ps r se \<or> stored ps r sw)"

fun quad_inv :: "quadtree \<Rightarrow> bool" where
  "quad_inv (Leaf b c pts) \<longleftrightarrow> True"
| "quad_inv (Divided b c pts ne nw se sw) \<longleftrightarrow>
     boundary_of ne = Boundary (b_x b + b_w b / 2) (b_y b - b_h b / 2) (b_w b / 2) (b_h b / 2) \<and>
     boundary_of nw = Boundary (b_x b - b_w b / 2) (b_y b - b_h b / 2) (b_w b / 2) (b_h b / 2) \<and>
     boundary_of se = Boundary (b_x b + b_w b / 2) (b_y b + b_h b / 2) (b_w b / 2) (b_h b / 2) \<and>
     boundary_of sw = Boundary (b_x b - b_w b / 2) (b_y b + b_h b / 2) (b_w b / 2) (b_h b / 2) \<and>
     quad_inv ne \<and> quad_inv nw \<and> quad_inv se \<and> quad_inv sw"

text \<open>Concrete data for the examples below: a particle with a given position and velocity.\<close>

definition particle_at :: "real \<Rightarrow> real \<Rightarrow> real \<Rightarrow> real \<Rightarrow> particle" where
  "particle_at x y u v =
     \<lparr>pos = createVector x y, vel = createVector u v, acc = createVector 0 0, hue = 0,
      baseSize = 5, psize = 5, pulseSpeed = 1 / 50, pulseOffset = 0\<rparr>"

definition canvas :: env where
  \<comment> \<open>an 800 by 600 canvas, mouse released, frame 0\<close>
  "canvas = \<lparr>mouseIsPressed = False, mouseX = 0, mouseY = 0, width = 800, height = 600,
             frameCount = 0\<rparr>"

definition sketch_of :: "particle list \<Rightarrow> bool \<Rightarrow> sketch" where
  "sketch_of ps useQt =
     \<lparr>particles = ps, colorShift = 0, repulsionMode = False, useQuadtree = useQt,
      quadtree = QuadTree (root_boundary canvas) 4\<rparr>"

definition five_at_10_10 :: "particle list" where
  "five_at_10_10 = replicate 5 (particle_at 10 10 0 0)"

definition five_tree :: quadtree where
  "five_tree =
     Divided (Boundary 400 300 400 300) 4 [0, 1, 2, 3]
       (Leaf (Boundary 600 150 200 150) 4 [])
       (Leaf (Boundary 200 150 200 150) 4 [4])
       (Leaf (Boundary 600 450 200 150) 4 [])
       (Leaf (Boundary 200 450 200 150) 4 [])"

definition crossing :: "particle list" where
  "crossing = [particle_at 10 10 0 0, particle_at 10 10 0 0, particle_at 10 10 0 0,
               particle_at 10 10 0 0, particle_at (80001 / 200) 50 0 0]"

definition crossing_index :: "quadtree" where
  "crossing_index =
     Divided (Boundary 400 300 400 300) 4 [0, 1, 2, 3]
       (Leaf (Boundary 600 150 200 150) 4 [4])
       (Leaf (Boundary 200 150 200 150) 4 [])
       (Leaf (Boundary 600 450 200 150) 4 [])
       (Leaf (Boundary 200 450 200 150) 4 [])"

definition crossing_index_after :: "quadtree" where
  "crossing_index_after =
     Divided (Boundary 400 300 400 300) 4 [0, 1, 2, 3]
       (Leaf (Boundary 600 150 200 150) 4 [])
       (Leaf (Boundary 200 150 200 150) 4 [4])
       (Leaf (Boundary 600 450 200 150) 4 [])
       (Leaf (Boundary 200 450 200 150) 4 [])"

definition near_pair :: "particle list" where
  "near_pair = [particle_at 0 0 0 0, particle_at 50 0 0 0]"

definition far_pair :: "particle list" where
  "far_pair = [particle_at 0 0 0 0, particle_at 200 0 0 0]"

definition edge_pair :: "particle list" where
  "edge_pair = [particle_at 790 50 0 0, particle_at 800 50 0 0]"

section \<open>Facts about the concrete data\<close>

lemma canvas_simps:
  "width canvas = 800" "height canvas = 600" "mouseIsPressed canvas = False"
  "root_boundary canvas = Boundary 400 300 400 300"
  by (simp_all add: canvas_def root_boundary_def)

lemma crossing_length: "length crossing = 5"
  by (simp add: crossing_def)

lemma sketch_of_simps:
  "particles (sketch_of ps q) = ps" "useQuadtree (sketch_of ps q) = q"
  "repulsionMode (sketch_of ps q) = False" "colorShift (sketch_of ps q) = 0"
  "quadtree (sketch_of ps q) = QuadTree (root_boundary canvas) 4"
  by (simp_all add: sketch_of_def)

section \<open>The motion model\<close>

lemma magSq_nonneg: "0 \<le> magSq a"
  by (simp add: magSq_def)

lemma mag_vmult: "mag (vmult a k) = \<bar>k\<bar> * mag a"
proof -
  have "magSq (vmult a k) = k\<^sup>2 * magSq a"
    by (simp add: magSq_def vmult_def power2_eq_square algebra_simps)
  then show ?thesis
    by (simp add: mag_def real_sqrt_mult)
qed

lemma mag_limit: "0 \<le> mx \<Longrightarrow> mag (limit a mx) \<le> mx"
proof (cases "magSq a > mx * mx")
  case True
  assume mx: "0 \<le> mx"
  from True mx have pos: "0 < magSq a"
    by (meson le_less_trans mult_nonneg_nonneg)
  define s where "s = sqrt (magSq a)"
  have s: "s * s = magSq a" "s \<noteq> 0" using pos by (simp_all add: s_def)
  have "magSq (vmult (vdiv a s) mx) = mx * mx * (magSq a / (s * s))"
    by (simp add: magSq_def vmult_def vdiv_def algebra_simps add_divide_distrib)
  also have "magSq a / (s * s) = 1" using s pos by simp
  finally have "magSq (vmult (vdiv a (sqrt (magSq a))) mx) = mx * mx" by (simp add: s_def)
  then have "magSq (vmult (vdiv a (sqrt (magSq a))) mx) = mx * mx * 1" by simp
  also have "mx * mx * 1 = mx * mx" by simp
  finally have "mag (vmult (vdiv a (sqrt (magSq a))) mx) = mx"
    using mx by (simp add: mag_def)
  with True show ?thesis by (simp add: limit_def Let_def)
next
  case False
  assume mx: "0 \<le> mx"
  from False have "magSq a \<le> mx * mx" by simp
  then have "sqrt (magSq a) \<le> sqrt (mx * mx)" by (rule real_sqrt_le_mono)
  with mx False show ?thesis by (simp add: limit_def Let_def mag_def)
qed

lemma js_rem_range:
  assumes "0 \<le> a" "0 < b"
  shows "0 \<le> js_rem a b \<and> js_rem a b < b"
proof -
  have q: "0 \<le> a / b" using assms by simp
  define n :: real where "n = of_int \<lfloor>a / b\<rfloor>"
  have "n \<le> a / b" "a / b < n + 1" unfolding n_def by linarith+
  then have "n * b \<le> a" "a < (n + 1) * b"
    using assms(2) by (simp_all add: pos_le_divide_eq pos_divide_less_eq)
  then have "0 \<le> a - b * n \<and> a - b * n < b" by (simp add: algebra_simps)
  then show ?thesis using q by (simp add: js_rem_def Let_def n_def)
qed

lemma wrap_edges_inside:
  assumes "0 \<le> width e" "0 \<le> height e"
  shows "0 \<le> vx (wrap_edges e q) \<and> vx (wrap_edges e q) \<le> width e \<and>
         0 \<le> vy (wrap_edges e q) \<and> vy (wrap_edges e q) \<le> height e"
  using assms by (simp add: wrap_edges_def Let_def)

lemma pos_update: "pos (update e rep angle p) = wrap_edges e (pos_before_wrap e rep angle p)"
  by (simp add: update_def pos_before_wrap_def Let_def)

lemma vel_update:
  "vel (update e rep angle p) =
     vmult (limit (vadd (vel p) (vadd (update_acc e rep p) (vmult (random2D angle) 0.01))) maxSpeed) 0.99"
  by (simp add: update_def Let_def)

lemma acc_update:
  "acc (update e rep angle p) = vadd (update_acc e rep p) (vmult (random2D angle) 0.01)"
  by (simp add: update_def Let_def)

lemma hue_update: "hue (update e rep angle p) = js_rem (hue p + 0.1) 360"
  by (simp add: update_def Let_def)

lemma pos_before_wrap_released:
  "\<not> mouseIsPressed e \<Longrightarrow> magSq (vadd (vel p) (vmult (random2D angle) 0.01)) \<le> maxSpeed * maxSpeed \<Longrightarrow>
   pos_before_wrap e rep angle p = vadd (pos p) (vadd (vel p) (vmult (random2D angle) 0.01))"
  by (simp add: pos_before_wrap_def update_acc_def limit_def Let_def vadd_def createVector_def)

lemma pos_update_canvas:
  "magSq (vadd (createVector u v) (vmult (random2D angle) 0.01)) \<le> maxSpeed * maxSpeed \<Longrightarrow>
   pos (update canvas rep angle (particle_at x y u v)) =
     wrap_edges canvas (vadd (createVector x y) (vadd (createVector u v) (vmult (random2D angle) 0.01)))"
  by (simp add: pos_update pos_before_wrap_released canvas_def particle_at_def)

lemmas vec_eval = createVector_def vadd_def vmult_def random2D_def magSq_def maxSpeed_def
  wrap_edges_def canvas_simps

lemma Particle_hue:
  "0 \<le> u 4 \<Longrightarrow> u 4 < 1 \<Longrightarrow> 0 \<le> hue (Particle e u) \<and> hue (Particle e u) < 360"
  by (simp add: Particle_def Let_def)

lemma acc_update_fresh:
  assumes "\<not> mouseIsPressed e \<or> mag (vsub (createVector (mouseX e) (mouseY e)) (pos p)) > 5"
  shows "acc (update e rep angle (p\<lparr>acc := a\<rparr>)) = acc (update e rep angle p)"
  using assms by (auto simp: acc_update update_acc_def Let_def)

text \<open>
  Claim C7.  For a particle whose hue is not negative (the constructor draws it from
  \<open>[0, 360)\<close>, and \<open>update\<close> keeps it there) on a canvas of non-negative width and height:
  after \<open>update\<close> the magnitude of the velocity is at most \<open>maxSpeed\<close>, the hue lies in
  \<open>[0, 360)\<close> and the position lies in the closed rectangle from \<open>(0, 0)\<close> to
  \<open>(width, height)\<close>; a coordinate that fell below 0 is set to the maximum of its axis and
  one that exceeded the maximum is set to 0.
\<close>

theorem update_invariants:
  assumes "0 \<le> hue p" "0 \<le> width e" "0 \<le> height e"
  shows "mag (vel (update e rep angle p)) \<le> maxSpeed \<and>
         0 \<le> hue (update e rep angle p) \<and> hue (update e rep angle p) < 360 \<and>
         0 \<le> vx (pos (update e rep angle p)) \<and> vx (pos (update e rep angle p)) \<le> width e \<and>
         0 \<le> vy (pos (update e rep angle p)) \<and> vy (pos (update e rep angle p)) \<le> height e \<and>
         (vx (pos_before_wrap e rep angle p) < 0 \<longrightarrow> vx (pos (update e rep angle p)) = width e) \<and>
         (vx (pos_before_wrap e rep angle p) > width e \<longrightarrow> vx (pos (update e rep angle p)) = 0) \<and>
         (vy (pos_before_wrap e rep angle p) < 0 \<longrightarrow> vy (pos (update e rep angle p)) = height e) \<and>
         (vy (pos_before_wrap e rep angle p) > height e \<longrightarrow> vy (pos (update e rep angle p)) = 0)"
proof -
  let ?v = "limit (vadd (vel p) (vadd (update_acc e rep p) (vmult (random2D angle) 0.01))) maxSpeed"
  have "mag ?v \<le> maxSpeed" by (rule mag_limit) (simp add: maxSpeed_def)
  moreover have "0 \<le> mag ?v" by (simp add: mag_def magSq_nonneg)
  ultimately have v: "mag (vel (update e rep angle p)) \<le> maxSpeed"
    unfolding vel_update mag_vmult by simp
  have h: "0 \<le> hue (update e rep angle p) \<and> hue (update e rep angle p) < 360"
    unfolding hue_update using assms(1) by (intro js_rem_range) simp_all
  have w: "0 \<le> vx (pos (update e rep angle p)) \<and> vx (pos (update e rep angle p)) \<le> width e \<and>
         0 \<le> vy (pos (update e rep angle p)) \<and> vy (pos (update e rep angle p)) \<le> height e"
    unfolding pos_update using assms(2,3) by (rule wrap_edges_inside)
  have r: "(vx (pos_before_wrap e rep angle p) < 0 \<longrightarrow> vx (pos (update e rep angle p)) = width e) \<and>
         (vx (pos_before_wrap e rep angle p) > width e \<longrightarrow> vx (pos (update e rep angle p)) = 0) \<and>
         (vy (pos_before_wrap e rep angle p) < 0 \<longrightarrow> vy (pos (update e rep angle p)) = height e) \<and>
         (vy (pos_before_wrap e rep angle p) > height e \<longrightarrow> vy (pos (update e rep angle p)) = 0)"
    unfolding pos_update using assms(2,3) by (simp add: wrap_edges_def Let_def)
  from v h w r show ?thesis by blast
qed

theorem update_invariants_witness:
  "0 \<le> hue (particle_at 1 50 (- 3 / 2) 0) \<and> 0 \<le> width canvas \<and> 0 \<le> height canvas \<and>
   vx (pos_before_wrap canvas False pi (particle_at 1 50 (- 3 / 2) 0)) < 0 \<and>
   mag (vel (update canvas False pi (particle_at 1 50 (- 3 / 2) 0))) \<le> maxSpeed \<and>
   hue (update canvas False pi (particle_at 1 50 (- 3 / 2) 0)) < 360 \<and>
   vx (pos (update canvas False pi (particle_at 1 50 (- 3 / 2) 0))) = 800"
  using update_invariants [of "particle_at 1 50 (- 3 / 2) 0" canvas False pi]
  by (simp add: pos_before_wrap_released particle_at_def canvas_def createVector_def vadd_def vmult_def
        random2D_def magSq_def maxSpeed_def)

text \<open>
  Claim C6 fails on the code.  With the mouse pressed at distance at most 5 from the
  particle, \<open>update\<close> assigns nothing to \<^verbatim>\<open>this.acc\<close> before adding the perturbation: a
  particle that enters the call with acceleration \<open>(0.5, 0)\<close> leaves it with \<open>(0.51, 0)\<close>,
  where the same particle with acceleration \<open>(0, 0)\<close> leaves it with \<open>(0.01, 0)\<close>.
\<close>

theorem stale_acceleration_near_pointer:
  "acc (update (canvas\<lparr>mouseIsPressed := True, mouseX := 100, mouseY := 100\<rparr>) False 0
         ((particle_at 100 100 0 0)\<lparr>acc := createVector (1 / 2) 0\<rparr>)) = createVector (51 / 100) 0 \<and>
   acc (update (canvas\<lparr>mouseIsPressed := True, mouseX := 100, mouseY := 100\<rparr>) False 0
         ((particle_at 100 100 0 0)\<lparr>acc := createVector 0 0\<rparr>)) = createVector (1 / 100) 0"
  by (simp add: acc_update update_acc_def particle_at_def canvas_def createVector_def vadd_def vmult_def
        vsub_def random2D_def mag_def magSq_def Let_def)


section \<open>The broad-phase test\<close>

lemma dist_ge_dx: "\<bar>x2 - x1\<bar> \<le> dist x1 y1 x2 y2"
  unfolding dist_def by (rule real_le_rsqrt) (simp add: power2_eq_square)

lemma dist_ge_dy: "\<bar>y2 - y1\<bar> \<le> dist x1 y1 x2 y2"
  unfolding dist_def by (rule real_le_rsqrt) (simp add: power2_eq_square)

text \<open>
  Claim C2.  Whenever some point \<open>(px, py)\<close> of the closed rectangle of a boundary lies at
  distance at most the radius from the centre of a circular region, \<open>intersects\<close> returns
  true: the broad-phase test never rejects a true overlap.
\<close>

theorem intersects_no_false_negative:
  assumes "b_x b - b_w b \<le> px" "px \<le> b_x b + b_w b"
    and "b_y b - b_h b \<le> py" "py \<le> b_y b + b_h b"
    and "dist (c_x rng) (c_y rng) px py \<le> c_r rng"
  shows "intersects b rng"
proof -
  have "\<bar>px - c_x rng\<bar> \<le> c_r rng" "\<bar>py - c_y rng\<bar> \<le> c_r rng"
    using assms(5) dist_ge_dx [of px "c_x rng" "c_y rng" py]
      dist_ge_dy [of py "c_y rng" "c_x rng" px] by linarith+
  with assms(1-4) show ?thesis
    unfolding intersects_def by linarith
qed

theorem intersects_no_false_negative_witness:
  "intersects (Boundary 400 300 400 300) (Circle 810 300 20)"
  using intersects_no_false_negative [of "Boundary 400 300 400 300" 800 300 "Circle 810 300 20"]
  by (simp add: Boundary_def Circle_def dist_def)

section \<open>Connection strength\<close>

text \<open>
  Claim C9, as stated, fails for the stroke weight: at the connection radius the weight
  handed to the renderer is 0.1, not zero.
\<close>

theorem connection_weight_at_radius_not_zero:
  "conn_sw (drawConnection [] 0 0 1 connectionDistance) = 1 / 10 \<and>
   conn_sw (drawConnection [] 0 0 1 connectionDistance) \<noteq> 0"
  by (simp add: drawConnection_def p5map_def connectionDistance_def)

text \<open>
  Claim C9, amended.  Alpha and stroke weight of a connection are affine functions of the
  distance \<open>d\<close>: alpha is \<open>1 - d / connectionDistance\<close>, the weight is
  \<open>2 - 1.9 * d / connectionDistance\<close>.  Both are largest at distance 0 (1 and 2); at the
  connection radius alpha is 0 and the weight is 0.1.
\<close>

theorem connection_strength_linear:
  "conn_alpha (drawConnection ps cs i j d) = 1 - d / connectionDistance \<and>
   conn_sw (drawConnection ps cs i j d) = 2 - (19 / 10) * (d / connectionDistance) \<and>
   conn_alpha (drawConnection ps cs i j 0) = 1 \<and>
   conn_sw (drawConnection ps cs i j 0) = 2 \<and>
   conn_alpha (drawConnection ps cs i j connectionDistance) = 0 \<and>
   conn_sw (drawConnection ps cs i j connectionDistance) = 1 / 10 \<and>
   (0 \<le> d \<longrightarrow> conn_alpha (drawConnection ps cs i j d) \<le> conn_alpha (drawConnection ps cs i j 0) \<and>
              conn_sw (drawConnection ps cs i j d) \<le> conn_sw (drawConnection ps cs i j 0))"
  by (simp add: drawConnection_def p5map_def connectionDistance_def field_simps)

theorem connection_strength_linear_witness:
  "(0::real) \<le> 60 \<and>
   conn_alpha (drawConnection [] 0 0 1 60) = 1 / 2 \<and>
   conn_sw (drawConnection [] 0 0 1 60) = 21 / 20 \<and>
   conn_alpha (drawConnection [] 0 0 1 60) \<le> conn_alpha (drawConnection [] 0 0 1 0) \<and>
   conn_sw (drawConnection [] 0 0 1 60) \<le> conn_sw (drawConnection [] 0 0 1 0)"
  using connection_strength_linear [of "[]" 0 0 1 60]
  by (simp add: connectionDistance_def)

section \<open>Adding and removing particles\<close>

lemma length_butlast_pow: "length ((butlast ^^ n) xs) = length xs - n"
  by (induction n) simp_all

lemma keyPressed_length:
  "length (particles (keyPressed key mk st)) =
     (if key = CHR ''a'' \<or> key = CHR ''A'' then length (particles st) + 10
      else if (key = CHR ''d'' \<or> key = CHR ''D'') \<and> length (particles st) > 10
        then length (particles st) - 10
      else if key = CHR '' '' \<and> length (particles st) > 0 then numParticles
      else length (particles st))"
  by (auto simp: keyPressed_def Let_def length_butlast_pow)

lemma keyPressed_positive:
  "1 \<le> length (particles st) \<Longrightarrow> 1 \<le> length (particles (keyPressed key mk st))"
  unfolding keyPressed_length by (auto simp: numParticles_def)

lemma keys_pressed_positive:
  "1 \<le> length (particles st) \<Longrightarrow> 1 \<le> length (particles (keys_pressed ks st))"
proof (induction ks arbitrary: st)
  case Nil
  then show ?case by simp
next
  case (Cons k ks)
  from Cons.prems have "1 \<le> length (particles (keyPressed (fst k) (snd k) st))"
    by (rule keyPressed_positive)
  then show ?case using Cons.IH by simp
qed

lemma keyPressed_remove_noop:
  "key = CHR ''d'' \<or> key = CHR ''D'' \<Longrightarrow> length (particles st) \<le> 10 \<Longrightarrow>
   keyPressed key mk st = st"
  by (auto simp: keyPressed_def)

text \<open>
  Claim C10.  The guard of the removal is \<^verbatim>\<open>particles.length > 10\<close> and a removal pops 10
  particles, so the floor the code keeps is 0: pressing \<^verbatim>\<open>d\<close> changes nothing whenever
  removing 10 particles would leave 0 or fewer, and removes exactly 10 otherwise.
  Consequently a population that is above the floor stays above it after any sequence of
  key events (adding, removing, resetting, toggling).
\<close>

theorem remove_respects_floor:
  "((key = CHR ''d'' \<or> key = CHR ''D'') \<and> int (length (particles st)) - 10 \<le> 0 \<longrightarrow>
      keyPressed key mk st = st) \<and>
   ((key = CHR ''d'' \<or> key = CHR ''D'') \<and> int (length (particles st)) - 10 > 0 \<longrightarrow>
      int (length (particles (keyPressed key mk st))) = int (length (particles st)) - 10) \<and>
   (0 < length (particles st) \<longrightarrow> 0 < length (particles (keys_pressed ks st)))"
proof (intro conjI impI)
  assume "(key = CHR ''d'' \<or> key = CHR ''D'') \<and> int (length (particles st)) - 10 \<le> 0"
  then show "keyPressed key mk st = st"
    using keyPressed_remove_noop [of key st mk] by linarith
next
  assume "(key = CHR ''d'' \<or> key = CHR ''D'') \<and> int (length (particles st)) - 10 > 0"
  then show "int (length (particles (keyPressed key mk st))) = int (length (particles st)) - 10"
    unfolding keyPressed_length by auto
next
  assume "0 < length (particles st)"
  then have "1 \<le> length (particles st)" by linarith
  then have "1 \<le> length (particles (keys_pressed ks st))" by (rule keys_pressed_positive)
  then show "0 < length (particles (keys_pressed ks st))" by linarith
qed

theorem remove_respects_floor_witness:
  "int (length (particles (sketch_of (replicate 10 (particle_at 10 10 0 0)) True))) - 10 \<le> 0 \<and>
   keyPressed CHR ''d'' (\<lambda>k. particle_at 10 10 0 0)
       (sketch_of (replicate 10 (particle_at 10 10 0 0)) True)
     = sketch_of (replicate 10 (particle_at 10 10 0 0)) True \<and>
   int (length (particles (sketch_of (replicate 15 (particle_at 10 10 0 0)) True))) - 10 > 0 \<and>
   length (particles (keyPressed CHR ''d'' (\<lambda>k. particle_at 10 10 0 0)
       (sketch_of (replicate 15 (particle_at 10 10 0 0)) True))) = 5 \<and>
   0 < length (particles (sketch_of (replicate 10 (particle_at 10 10 0 0)) True)) \<and>
   0 < length (particles (keys_pressed
         [(CHR ''a'', \<lambda>k. particle_at 10 10 0 0), (CHR ''d'', \<lambda>k. particle_at 10 10 0 0),
          (CHR ''d'', \<lambda>k. particle_at 10 10 0 0)]
         (sketch_of (replicate 10 (particle_at 10 10 0 0)) True)))"
  using remove_respects_floor [of "CHR ''d''" "sketch_of (replicate 10 (particle_at 10 10 0 0)) True"
      "\<lambda>k. particle_at 10 10 0 0"
      "[(CHR ''a'', \<lambda>k. particle_at 10 10 0 0), (CHR ''d'', \<lambda>k. particle_at 10 10 0 0),
        (CHR ''d'', \<lambda>k. particle_at 10 10 0 0)]"]
    remove_respects_floor [of "CHR ''d''" "sketch_of (replicate 15 (particle_at 10 10 0 0)) True"
      "\<lambda>k. particle_at 10 10 0 0" "[]"]
  by (simp add: sketch_of_def)

section \<open>Insertion into the quadtree\<close>

lemma insert_outside:
  "\<not> contains (boundary_of t) (ps ! r) \<Longrightarrow> insert ps r t = Some (False, t)"
  by (subst insert.simps) simp

lemma insert_room:
  "contains (boundary_of t) (ps ! r) \<Longrightarrow> length (points t) < capacity t \<Longrightarrow>
   insert ps r t = Some (True, push_point r t)"
  by (subst insert.simps) simp

lemma insert_full: "full_at ps r t \<Longrightarrow> insert ps r t = kids (insert ps r) (descend t)"
  by (subst insert.simps) (simp add: full_at_def descend_def kids_def)

lemma descend_Divided:
  "\<exists>ne nw se sw. descend t = Divided (boundary_of t) (capacity t) (points t) ne nw se sw"
  by (cases t) (simp_all add: descend_def subdivide_def Let_def)

lemma kids_cases:
  assumes "kids f (Divided b c pts ne nw se sw) = Some y"
  shows "(\<exists>ne'. f ne = Some (True, ne') \<and> y = (True, Divided b c pts ne' nw se sw)) \<or>
         (\<exists>ne' nw'. f ne = Some (False, ne') \<and> f nw = Some (True, nw') \<and>
            y = (True, Divided b c pts ne' nw' se sw)) \<or>
         (\<exists>ne' nw' se'. f ne = Some (False, ne') \<and> f nw = Some (False, nw') \<and>
            f se = Some (True, se') \<and> y = (True, Divided b c pts ne' nw' se' sw)) \<or>
         (\<exists>ne' nw' se' sw' ok. f ne = Some (False, ne') \<and> f nw = Some (False, nw') \<and>
            f se = Some (False, se') \<and> f sw = Some (ok, sw') \<and>
            y = (ok, Divided b c pts ne' nw' se' sw'))"
  using assms by (auto simp: kids_def split: Option.bind_splits if_splits prod.splits)

lemma kids_total:
  assumes "f ne \<noteq> None" "f nw \<noteq> None" "f se \<noteq> None" "f sw \<noteq> None"
  shows "kids f (Divided b c pts ne nw se sw) \<noteq> None"
  using assms by (auto simp: kids_def split: Option.bind_splits if_splits prod.splits)

lemma insert_fresh_leaf: "0 < c \<Longrightarrow> insert ps r (QuadTree b c) \<noteq> None"
  by (cases "contains b (ps ! r)") (simp_all add: insert_outside insert_room QuadTree_def)

lemma insert_total: "node_inv t \<Longrightarrow> 0 < capacity t \<Longrightarrow> insert ps r t \<noteq> None"
proof (induction t)
  case (Leaf b c pts)
  show ?case
  proof (cases "full_at ps r (Leaf b c pts)")
    case True
    with Leaf.prems show ?thesis
      by (simp add: insert_full descend_def subdivide_def Let_def kids_total insert_fresh_leaf)
  next
    case False
    then show ?thesis
      by (cases "contains b (ps ! r)") (simp_all add: full_at_def insert_outside insert_room)
  qed
next
  case (Divided b c pts ne nw se sw)
  show ?case
  proof (cases "full_at ps r (Divided b c pts ne nw se sw)")
    case True
    with Divided show ?thesis
      by (simp add: insert_full descend_def kids_total)
  next
    case False
    then show ?thesis
      by (cases "contains b (ps ! r)") (simp_all add: full_at_def insert_outside insert_room)
  qed
qed


theorem insert_induct [consumes 1, case_names outside room ne nw se sw]:
  assumes res: "insert ps r t = Some y"
    and outside: "\<And>t. \<not> contains (boundary_of t) (ps ! r) \<Longrightarrow> P t (False, t)"
    and room: "\<And>t. contains (boundary_of t) (ps ! r) \<Longrightarrow> length (points t) < capacity t \<Longrightarrow>
                 P t (True, push_point r t)"
    and ne: "\<And>t b c pts ne nw se sw ne'. full_at ps r t \<Longrightarrow>
               descend t = Divided b c pts ne nw se sw \<Longrightarrow>
               insert ps r ne = Some (True, ne') \<Longrightarrow> P ne (True, ne') \<Longrightarrow>
               P t (True, Divided b c pts ne' nw se sw)"
    and nw: "\<And>t b c pts ne nw se sw ne' nw'. full_at ps r t \<Longrightarrow>
               descend t = Divided b c pts ne nw se sw \<Longrightarrow>
               insert ps r ne = Some (False, ne') \<Longrightarrow> P ne (False, ne') \<Longrightarrow>
               insert ps r nw = Some (True, nw') \<Longrightarrow> P nw (True, nw') \<Longrightarrow>
               P t (True, Divided b c pts ne' nw' se sw)"
    and se: "\<And>t b c pts ne nw se sw ne' nw' se'. full_at ps r t \<Longrightarrow>
               descend t = Divided b c pts ne nw se sw \<Longrightarrow>
               insert ps r ne = Some (False, ne') \<Longrightarrow> P ne (False, ne') \<Longrightarrow>
               insert ps r nw = Some (False, nw') \<Longrightarrow> P nw (False, nw') \<Longrightarrow>
               insert ps r se = Some (True, se') \<Longrightarrow> P se (True, se') \<Longrightarrow>
               P t (True, Divided b c pts ne' nw' se' sw)"
    and sw: "\<And>t b c pts ne nw se sw ne' nw' se' sw' ok. full_at ps r t \<Longrightarrow>
               descend t = Divided b c pts ne nw se sw \<Longrightarrow>
               insert ps r ne = Some (False, ne') \<Longrightarrow> P ne (False, ne') \<Longrightarrow>
               insert ps r nw = Some (False, nw') \<Longrightarrow> P nw (False, nw') \<Longrightarrow>
               insert ps r se = Some (False, se') \<Longrightarrow> P se (False, se') \<Longrightarrow>
               insert ps r sw = Some (ok, sw') \<Longrightarrow> P sw (ok, sw') \<Longrightarrow>
               P t (ok, Divided b c pts ne' nw' se' sw')"
  shows "P t y"
proof -
  have "insert ps r t = Some y \<and> (ps = ps \<longrightarrow> r = r \<longrightarrow> P t y)"
  proof (rule insert.raw_induct [where P = "\<lambda>ps0 r0 t0 y0.
           insert ps0 r0 t0 = Some y0 \<and> (ps0 = ps \<longrightarrow> r0 = r \<longrightarrow> P t0 y0)", OF _ res], goal_cases)
    case (1 ins ps0 r0 t0 y0)
    note IH = 1(1) and body = 1(2)
    show ?case
    proof (cases "full_at ps0 r0 t0")
      case False
      with body outside room show ?thesis
        by (auto simp: full_at_def insert_outside insert_room split: if_splits)
    next
      case True
      obtain b c pts ne nw se sw where d: "descend t0 = Divided b c pts ne nw se sw"
        using descend_Divided by blast
      from body True d have k: "kids (ins ps0 r0) (Divided b c pts ne nw se sw) = Some y0"
        by (simp add: full_at_def descend_def kids_def)
      have unf: "insert ps0 r0 t0 = kids (insert ps0 r0) (Divided b c pts ne nw se sw)"
        using insert_full [OF True] d by simp
      from kids_cases [OF k] show ?thesis
      proof (elim disjE exE conjE)
        fix ne'
        assume a: "ins ps0 r0 ne = Some (True, ne')" "y0 = (True, Divided b c pts ne' nw se sw)"
        from IH [OF a(1)] a(2) unf True d ne show ?thesis
          by (auto simp: kids_def)
      next
        fix ne' nw'
        assume a: "ins ps0 r0 ne = Some (False, ne')" "ins ps0 r0 nw = Some (True, nw')"
          "y0 = (True, Divided b c pts ne' nw' se sw)"
        from IH [OF a(1)] IH [OF a(2)] a(3) unf True d nw show ?thesis
          by (auto simp: kids_def)
      next
        fix ne' nw' se'
        assume a: "ins ps0 r0 ne = Some (False, ne')" "ins ps0 r0 nw = Some (False, nw')"
          "ins ps0 r0 se = Some (True, se')" "y0 = (True, Divided b c pts ne' nw' se' sw)"
        from IH [OF a(1)] IH [OF a(2)] IH [OF a(3)] a(4) unf True d se show ?thesis
          by (auto simp: kids_def)
      next
        fix ne' nw' se' sw' ok
        assume a: "ins ps0 r0 ne = Some (False, ne')" "ins ps0 r0 nw = Some (False, nw')"
          "ins ps0 r0 se = Some (False, se')" "ins ps0 r0 sw = Some (ok, sw')"
          "y0 = (ok, Divided b c pts ne' nw' se' sw')"
        from IH [OF a(1)] IH [OF a(2)] IH [OF a(3)] IH [OF a(4)] a(5) unf True d sw show ?thesis
          by (auto simp: kids_def)
      qed
    qed
  qed
  then show ?thesis by simp
qed

lemma descend_props:
  assumes "descend t = Divided b c pts ne nw se sw"
  shows "b = boundary_of t" "c = capacity t" "pts = points t"
  using assms descend_Divided [of t] by auto

lemma descend_kids_inv:
  assumes "descend t = Divided b c pts ne nw se sw" "node_inv t"
  shows "node_inv ne \<and> node_inv nw \<and> node_inv se \<and> node_inv sw \<and>
         capacity ne = c \<and> capacity nw = c \<and> capacity se = c \<and> capacity sw = c"
  using assms by (cases t) (auto simp: descend_def subdivide_def Let_def QuadTree_def)

lemma node_inv_length: "node_inv t \<Longrightarrow> length (points t) \<le> capacity t"
  by (cases t) auto

lemma insert_node_inv_aux:
  assumes "insert ps r t = Some y"
  shows "node_inv t \<longrightarrow> node_inv (snd y) \<and> capacity (snd y) = capacity t"
  using assms
proof (induction rule: insert_induct)
  case (outside t)
  then show ?case by simp
next
  case (room t)
  then show ?case by (cases t) auto
next
  case (ne t b c pts ne nw se sw ne')
  from ne(1) have f: "\<not> length (points t) < capacity t" by (simp add: full_at_def)
  show ?case
  proof
    assume i: "node_inv t"
    from descend_kids_inv [OF ne(2) i] descend_props [OF ne(2)] ne f node_inv_length [OF i]
    show "node_inv (snd (True, Divided b c pts ne' nw se sw)) \<and>
          capacity (snd (True, Divided b c pts ne' nw se sw)) = capacity t"
      by simp
  qed
next
  case (nw t b c pts ne nw se sw ne' nw')
  from nw(1) have f: "\<not> length (points t) < capacity t" by (simp add: full_at_def)
  show ?case
  proof
    assume i: "node_inv t"
    from descend_kids_inv [OF nw(2) i] descend_props [OF nw(2)] nw f node_inv_length [OF i]
    show "node_inv (snd (True, Divided b c pts ne' nw' se sw)) \<and>
          capacity (snd (True, Divided b c pts ne' nw' se sw)) = capacity t"
      by simp
  qed
next
  case (se t b c pts ne nw se sw ne' nw' se')
  from se(1) have f: "\<not> length (points t) < capacity t" by (simp add: full_at_def)
  show ?case
  proof
    assume i: "node_inv t"
    from descend_kids_inv [OF se(2) i] descend_props [OF se(2)] se f node_inv_length [OF i]
    show "node_inv (snd (True, Divided b c pts ne' nw' se' sw)) \<and>
          capacity (snd (True, Divided b c pts ne' nw' se' sw)) = capacity t"
      by simp
  qed
next
  case (sw t b c pts ne nw se sw ne' nw' se' sw' ok)
  from sw(1) have f: "\<not> length (points t) < capacity t" by (simp add: full_at_def)
  show ?case
  proof
    assume i: "node_inv t"
    from descend_kids_inv [OF sw(2) i] descend_props [OF sw(2)] sw f node_inv_length [OF i]
    show "node_inv (snd (ok, Divided b c pts ne' nw' se' sw')) \<and>
          capacity (snd (ok, Divided b c pts ne' nw' se' sw')) = capacity t"
      by simp
  qed
qed

lemma insert_node_inv:
  "insert ps r t = Some (ok, t') \<Longrightarrow> node_inv t \<Longrightarrow> node_inv t' \<and> capacity t' = capacity t"
  using insert_node_inv_aux [of ps r t "(ok, t')"] by simp

lemmas tree_eval =
  insert_outside insert_room insert_full full_at_def descend_def subdivide_def kids_def
  contains_def QuadTree_def Let_def canvas_simps

lemma reachable_insert_all:
  "reachable t \<Longrightarrow> insert_all ps rs t = Some t' \<Longrightarrow> reachable t'"
proof (induction rs arbitrary: t)
  case Nil
  then show ?case by simp
next
  case (Cons r rs)
  from Cons.prems(2) obtain res where res: "insert ps r t = Some res"
    and rest: "insert_all ps rs (snd res) = Some t'"
    by (auto split: Option.bind_splits)
  from Cons.prems(1) res have "reachable (snd res)"
    using reachable.step [of t ps r "fst res" "snd res"] by simp
  then show ?case using rest by (rule Cons.IH)
qed

lemma insert_five:
  "insert_all five_at_10_10 [0, 1, 2, 3, 4] (QuadTree (root_boundary canvas) 4) = Some five_tree"
  by (simp add: tree_eval Boundary_def five_tree_def five_at_10_10_def particle_at_def
        createVector_def)

lemma reachable_five_tree: "reachable five_tree"
  using reachable_insert_all [OF reachable.init insert_five] .

text \<open>
  Claim C3 fails on the code.  On an 800 by 600 canvas a particle at \<open>(800, 50)\<close>, where
  the edge reset of \<open>update\<close> puts a particle that left on the left side, is not contained
  in the root boundary, whose test is \<^verbatim>\<open>point.pos.x < this.x + this.w\<close>; \<open>insert\<close> returns
  false and the particle is not in the index.
\<close>

theorem insert_rejects_right_edge:
  "contains (root_boundary canvas) (particle_at 800 50 0 0) = False \<and>
   insert [particle_at 800 50 0 0] 0 (QuadTree (root_boundary canvas) 4)
     = Some (False, QuadTree (root_boundary canvas) 4)"
  by (simp add: tree_eval Boundary_def particle_at_def createVector_def)

text \<open>
  Claim C4, as stated, fails: inserting five particles at \<open>(10, 10)\<close> into an index of
  capacity 4 gives a subdivided root that still holds the first four particles.
\<close>

theorem subdivided_root_keeps_points:
  "reachable five_tree \<and> divided five_tree \<and> points five_tree = [0, 1, 2, 3]"
  using reachable_five_tree by (simp add: five_tree_def)

text \<open>
  Claim C4, amended.  In every quadtree reachable by calls of \<open>insert\<close> from a freshly
  constructed node, every node holds at most \<open>capacity\<close> particles: a leaf holds at most
  \<open>capacity\<close>, and a subdivided node keeps exactly the \<open>capacity\<close> particles it held when
  it was subdivided, while its four children, of the same capacity, take the later ones.
\<close>

theorem reachable_node_inv: "reachable t \<Longrightarrow> node_inv t"
proof (induction rule: reachable.induct)
  case (init b c)
  show ?case by (simp add: QuadTree_def)
next
  case (step t ps r ok t')
  then show ?case using insert_node_inv by blast
qed


theorem reachable_node_inv_witness: "reachable five_tree \<and> node_inv five_tree"
  using reachable_node_inv [of five_tree] reachable_five_tree by simp

section \<open>The order of a frame\<close>

lemma length_updated_upto [simp]: "length (updated_upto e rep angle ps k) = length ps"
  by (simp add: updated_upto_def)

lemma nth_updated_upto:
  "j < length ps \<Longrightarrow>
   updated_upto e rep angle ps k ! j = (if j < k then update e rep (angle j) (ps ! j) else ps ! j)"
  by (simp add: updated_upto_def)

lemma updated_upto_0: "updated_upto e rep angle ps 0 = ps"
  by (simp add: updated_upto_def map_nth)

lemma updated_upto_Suc:
  assumes "k < length ps"
  shows "(updated_upto e rep angle ps k)[k := update e rep (angle k) (updated_upto e rep angle ps k ! k)]
           = updated_upto e rep angle ps (Suc k)"
  using assms by (auto simp: list_eq_iff_nth_eq nth_updated_upto nth_list_update)

lemma draw_loop:
  "k \<le> length ps \<Longrightarrow>
   fold (draw_particle e rep angle cshift useQt qt) [0 ..< k] (ps, []) =
     (updated_upto e rep angle ps k,
      concat (map (step_connections e rep angle cshift useQt qt ps) [0 ..< k]))"
proof (induction k)
  case 0
  show ?case by (simp add: updated_upto_0)
next
  case (Suc k)
  then have k: "k < length ps" and k': "k \<le> length ps" by simp_all
  have "fold (draw_particle e rep angle cshift useQt qt) [0 ..< Suc k] (ps, []) =
        draw_particle e rep angle cshift useQt qt k
          (fold (draw_particle e rep angle cshift useQt qt) [0 ..< k] (ps, []))"
    by simp
  also have "\<dots> = draw_particle e rep angle cshift useQt qt k
          (updated_upto e rep angle ps k,
           concat (map (step_connections e rep angle cshift useQt qt ps) [0 ..< k]))"
    by (simp only: Suc.IH [OF k'])
  also have "\<dots> = (updated_upto e rep angle ps (Suc k),
      concat (map (step_connections e rep angle cshift useQt qt ps) [0 ..< Suc k]))"
    using k by (simp add: draw_particle_def Let_def updated_upto_Suc step_connections_def)
  finally show ?case .
qed

lemma insert_all_total:
  "node_inv t \<Longrightarrow> 0 < capacity t \<Longrightarrow> insert_all ps rs t \<noteq> None"
proof (induction rs arbitrary: t)
  case Nil
  show ?case by simp
next
  case (Cons r rs)
  from insert_total [OF Cons.prems, of ps r] obtain ok t' where res: "insert ps r t = Some (ok, t')"
    by (cases "insert ps r t") auto
  from insert_node_inv [OF res Cons.prems(1)] Cons.prems(2)
  have "node_inv t'" "0 < capacity t'" by simp_all
  then have "insert_all ps rs t' \<noteq> None" by (rule Cons.IH)
  with res show ?case by simp
qed

lemma build_quadtree_total: "build_quadtree e ps \<noteq> None"
  unfolding build_quadtree_def by (rule insert_all_total) (simp_all add: QuadTree_def)

lemma draw_eq:
  assumes "(if useQuadtree st then build_quadtree e (particles st) else Some (quadtree st)) = Some qt"
  shows "draw e angle st =
     Some (st\<lparr>particles := updated_upto e (repulsionMode st) angle (particles st) (length (particles st)),
              colorShift := js_rem (colorShift st + 0.2) 360, quadtree := qt\<rparr>,
           concat (map (step_connections e (repulsionMode st) angle (js_rem (colorShift st + 0.2) 360)
                          (useQuadtree st) qt (particles st)) [0 ..< length (particles st)]))"
  using assms by (simp add: draw_def Let_def draw_loop)

lemma crossing_build: "build_quadtree canvas crossing = Some crossing_index"
  by (simp add: build_quadtree_def tree_eval Boundary_def crossing_def crossing_index_def
        particle_at_def createVector_def)

lemma crossing_build_after:
  "build_quadtree canvas (updated_upto canvas False (\<lambda>i. pi) crossing 5) = Some crossing_index_after"
  by (simp add: build_quadtree_def tree_eval Boundary_def nth_updated_upto crossing_def
        crossing_index_after_def pos_update_canvas vec_eval)

text \<open>
  Claim C5, as stated, fails.  Five particles, the fifth just right of the vertical
  midline and drifting left: the index that \<open>draw\<close> leaves behind holds the fifth particle
  in the north-east child, where it was before its update, while an index built from
  the positions after the updates holds it in the north-west child.
\<close>

theorem index_built_before_update:
  "map_option (quadtree \<circ> fst) (draw canvas (\<lambda>i. pi) (sketch_of crossing True)) = Some crossing_index \<and>
   Option.bind (draw canvas (\<lambda>i. pi) (sketch_of crossing True))
     (\<lambda>res. build_quadtree canvas (particles (fst res))) = Some crossing_index_after \<and>
   crossing_index \<noteq> crossing_index_after"
proof -
  note len = crossing_length
  have "(if useQuadtree (sketch_of crossing True)
         then build_quadtree canvas (particles (sketch_of crossing True))
         else Some (quadtree (sketch_of crossing True))) = Some crossing_index"
    by (simp add: sketch_of_simps crossing_build)
  from draw_eq [OF this, of "\<lambda>i. pi"]
  have "map_option (quadtree \<circ> fst) (draw canvas (\<lambda>i. pi) (sketch_of crossing True)) = Some crossing_index"
    and "Option.bind (draw canvas (\<lambda>i. pi) (sketch_of crossing True))
           (\<lambda>res. build_quadtree canvas (particles (fst res))) =
         build_quadtree canvas (updated_upto canvas False (\<lambda>i. pi) crossing 5)"
    by (simp_all add: sketch_of_simps len)
  moreover have "crossing_index \<noteq> crossing_index_after"
    by (simp add: crossing_index_def crossing_index_after_def)
  ultimately show ?thesis by (simp add: crossing_build_after)
qed

text \<open>
  Claim C5, amended.  With the index enabled, a frame first builds a fresh index from the
  positions the particles have when the frame starts; then, for each particle \<open>i\<close> in
  order, it updates particle \<open>i\<close> and at once runs the range query of \<open>i\<close> on that index,
  with particles \<open>0..i\<close> already updated and the later ones not yet.  Every particle is
  updated exactly once, and \<open>draw\<close> always returns.
\<close>

theorem draw_order:
  assumes "useQuadtree st"
  shows "\<exists>qt. build_quadtree e (particles st) = Some qt \<and>
     draw e angle st =
       Some (st\<lparr>particles := updated_upto e (repulsionMode st) angle (particles st) (length (particles st)),
                colorShift := js_rem (colorShift st + 0.2) 360, quadtree := qt\<rparr>,
             concat (map (\<lambda>i. indexed_connections
                                 (updated_upto e (repulsionMode st) angle (particles st) (Suc i))
                                 (js_rem (colorShift st + 0.2) 360) qt i)
                      [0 ..< length (particles st)]))"
proof -
  from build_quadtree_total obtain qt where qt: "build_quadtree e (particles st) = Some qt"
    by blast
  with assms have "(if useQuadtree st then build_quadtree e (particles st) else Some (quadtree st)) = Some qt"
    by simp
  from draw_eq [OF this] assms qt show ?thesis
    by (simp add: step_connections_def [abs_def])
qed


theorem draw_order_witness:
  "useQuadtree (sketch_of crossing True) \<and>
   map_option (quadtree \<circ> fst) (draw canvas (\<lambda>i. pi) (sketch_of crossing True)) = Some crossing_index \<and>
   map_option (particles \<circ> fst) (draw canvas (\<lambda>i. pi) (sketch_of crossing True)) =
     Some (updated_upto canvas False (\<lambda>i. pi) crossing 5)"
  using draw_order [of "sketch_of crossing True" canvas "\<lambda>i. pi"] crossing_build
  by (auto simp: sketch_of_simps crossing_length)

section \<open>Every pair at most once\<close>

lemma all_points_descend: "all_points (descend t) = all_points t"
  by (cases t) (simp_all add: descend_def subdivide_def Let_def QuadTree_def)

lemma all_points_descend_eq:
  "descend t = Divided b c pts ne nw se sw \<Longrightarrow>
   all_points t = pts @ all_points ne @ all_points nw @ all_points se @ all_points sw"
  using all_points_descend [of t] by simp

lemma insert_all_points_aux:
  assumes "insert ps r t = Some y"
  shows "mset (all_points (snd y)) = mset (all_points t) + (if fst y then {#r#} else {#})"
  using assms
proof (induction rule: insert_induct)
  case (outside t)
  show ?case by simp
next
  case (room t)
  show ?case by (cases t) simp_all
next
  case (ne t b c pts ne nw se sw ne')
  from ne show ?case by (simp add: all_points_descend_eq)
next
  case (nw t b c pts ne nw se sw ne' nw')
  from nw show ?case by (simp add: all_points_descend_eq)
next
  case (se t b c pts ne nw se sw ne' nw' se')
  from se show ?case by (simp add: all_points_descend_eq)
next
  case (sw t b c pts ne nw se sw ne' nw' se' sw' ok)
  from sw show ?case by (simp add: all_points_descend_eq)
qed

lemma insert_all_points_subset:
  "insert_all ps rs t = Some t' \<Longrightarrow> mset (all_points t') \<subseteq># mset (all_points t) + mset rs"
proof (induction rs arbitrary: t)
  case Nil
  then show ?case by simp
next
  case (Cons r rs)
  from Cons.prems obtain y where y: "insert ps r t = Some y"
    and rest: "insert_all ps rs (snd y) = Some t'"
    by (auto split: Option.bind_splits)
  have 1: "mset (all_points t') \<subseteq># mset (all_points (snd y)) + mset rs"
    using rest by (rule Cons.IH)
  have "mset (all_points (snd y)) \<subseteq># mset (all_points t) + {#r#}"
    using insert_all_points_aux [OF y] by simp
  then have 2: "mset (all_points (snd y)) + mset rs \<subseteq># (mset (all_points t) + {#r#}) + mset rs"
    by (rule mset_subset_eq_mono_add) simp
  have "mset (all_points t') \<subseteq># (mset (all_points t) + {#r#}) + mset rs"
    using 1 2 by (rule subset_mset.order_trans)
  then show ?case by (simp add: ac_simps)
qed

lemma distinct_mset_subseteq:
  assumes "mset xs \<subseteq># mset ys" "distinct ys"
  shows "distinct xs"
proof -
  have "count (mset xs) a = (if a \<in> set xs then 1 else 0)" for a
  proof (cases "a \<in> set xs")
    case True
    then have "0 < count (mset xs) a" by simp
    moreover have "count (mset xs) a \<le> count (mset ys) a"
      using assms(1) by (rule mset_subset_eq_count)
    moreover have "count (mset ys) a \<le> 1"
      using assms(2) by (simp add: distinct_count_atmost_1)
    ultimately have "count (mset xs) a = 1" by linarith
    then show ?thesis using True by simp
  next
    case False
    then show ?thesis by (simp add: count_mset_0_iff)
  qed
  then show ?thesis by (simp add: distinct_count_atmost_1)
qed

lemma build_points:
  assumes "build_quadtree e ps = Some qt"
  shows "distinct (all_points qt)" "set (all_points qt) \<subseteq> {0 ..< length ps}"
proof -
  have sub: "mset (all_points qt) \<subseteq># mset [0 ..< length ps]"
    using insert_all_points_subset [OF assms [unfolded build_quadtree_def]]
    by (simp add: QuadTree_def)
  show "distinct (all_points qt)"
    using sub by (rule distinct_mset_subseteq) simp
  show "set (all_points qt) \<subseteq> {0 ..< length ps}"
    using set_mset_mono [OF sub] by simp
qed

lemma query_acc: "query ps rng t found = found @ query ps rng t []"
proof (induction t arbitrary: found)
  case (Leaf b c pts)
  show ?case by simp
next
  case (Divided b c pts ne nw se sw)
  note ne = Divided.IH(1) and nw = Divided.IH(2) and se = Divided.IH(3) and sw = Divided.IH(4)
  show ?case
  proof (cases "intersects b rng")
    case False
    then show ?thesis by simp
  next
    case True
    let ?f = "filter (in_range ps rng) pts"
    have "query ps rng (Divided b c pts ne nw se sw) found =
          query ps rng sw (query ps rng se (query ps rng nw (query ps rng ne (found @ ?f))))"
      using True by simp
    also have "\<dots> = found @ ?f @ query ps rng ne [] @ query ps rng nw [] @
                       query ps rng se [] @ query ps rng sw []"
      by (simp add: ne [of "found @ ?f"]
            nw [of "found @ ?f @ query ps rng ne []"]
            se [of "found @ ?f @ query ps rng ne [] @ query ps rng nw []"]
            sw [of "found @ ?f @ query ps rng ne [] @ query ps rng nw [] @ query ps rng se []"])
    also have "?f @ query ps rng ne [] @ query ps rng nw [] @ query ps rng se [] @ query ps rng sw [] =
               query ps rng (Divided b c pts ne nw se sw) []"
      using True
      by (simp add: ne [of "?f"]
            nw [of "?f @ query ps rng ne []"]
            se [of "?f @ query ps rng ne [] @ query ps rng nw []"]
            sw [of "?f @ query ps rng ne [] @ query ps rng nw [] @ query ps rng se []"])
    finally show ?thesis .
  qed
qed

lemma query_Divided:
  "query ps rng (Divided b c pts ne nw se sw) [] =
     (if \<not> intersects b rng then []
      else filter (in_range ps rng) pts @ query ps rng ne [] @ query ps rng nw [] @
           query ps rng se [] @ query ps rng sw [])"
proof (cases "intersects b rng")
  case False
  then show ?thesis by simp
next
  case True
  have "query ps rng (Divided b c pts ne nw se sw) [] =
          query ps rng sw (query ps rng se (query ps rng nw (query ps rng ne
             (filter (in_range ps rng) pts))))"
    using True by simp
  also have "\<dots> = query ps rng se (query ps rng nw (query ps rng ne
             (filter (in_range ps rng) pts))) @ query ps rng sw []"
    by (rule query_acc)
  also have "query ps rng se (query ps rng nw (query ps rng ne (filter (in_range ps rng) pts))) =
             query ps rng nw (query ps rng ne (filter (in_range ps rng) pts)) @ query ps rng se []"
    by (rule query_acc)
  also have "query ps rng nw (query ps rng ne (filter (in_range ps rng) pts)) =
             query ps rng ne (filter (in_range ps rng) pts) @ query ps rng nw []"
    by (rule query_acc)
  also have "query ps rng ne (filter (in_range ps rng) pts) =
             filter (in_range ps rng) pts @ query ps rng ne []"
    by (rule query_acc)
  finally show ?thesis using True by simp
qed

lemma query_mset: "mset (query ps rng t []) \<subseteq># mset (all_points t)"
proof (induction t)
  case (Leaf b c pts)
  show ?case by simp
next
  case (Divided b c pts ne nw se sw)
  have "mset (filter (in_range ps rng) pts) \<subseteq># mset pts" by simp
  with Divided.IH show ?case
    unfolding query_Divided all_points.simps
    by (auto simp del: mset_filter intro!: mset_subset_eq_mono_add)
qed

lemma query_in_range: "x \<in> set (query ps rng t []) \<Longrightarrow> in_range ps rng x"
proof (induction t)
  case (Leaf b c pts)
  then show ?case by (auto split: if_splits)
next
  case (Divided b c pts ne nw se sw)
  then show ?case unfolding query_Divided by (auto split: if_splits)
qed


lemma concat_map_if: "concat (map (\<lambda>x. if P x then [f x] else []) xs) = map f (filter P xs)"
  by (induction xs) simp_all

lemma indexed_connections_eq:
  "indexed_connections ps cs qt i =
     map (\<lambda>nb. drawConnection ps cs i nb (pdist ps i nb))
       (filter (\<lambda>nb. \<not> (nb = i \<or> indexOf ps nb \<le> int i) \<and> pdist ps i nb < connectionDistance)
          (query ps (Circle (vx (pos (ps ! i))) (vy (pos (ps ! i))) connectionDistance) qt []))"
proof -
  have "(\<lambda>neighbor. if neighbor = i \<or> indexOf ps neighbor \<le> int i then []
           else (let d = pdist ps i neighbor
                 in if d < connectionDistance then [drawConnection ps cs i neighbor d] else []))
      = (\<lambda>nb. if \<not> (nb = i \<or> indexOf ps nb \<le> int i) \<and> pdist ps i nb < connectionDistance
               then [drawConnection ps cs i nb (pdist ps i nb)] else [])"
    by (auto simp: Let_def fun_eq_iff)
  then show ?thesis
    by (simp add: indexed_connections_def Let_def concat_map_if)
qed

lemma brute_connections_eq:
  "brute_connections ps cs i =
     map (\<lambda>j. drawConnection ps cs i j (pdist ps i j))
       (filter (\<lambda>j. pdist ps i j < connectionDistance) [i + 1 ..< length ps])"
  by (simp add: brute_connections_def Let_def concat_map_if)

lemma conn_pair_drawConnection: "conn_pair (drawConnection ps cs i j d) = (i, j)"
  by (simp add: conn_pair_def drawConnection_def)

lemma indexOf_greater: "\<not> indexOf ps nb \<le> int i \<longleftrightarrow> nb < length ps \<and> i < nb"
  by (auto simp: indexOf_def)

lemma indexed_pairs:
  assumes "distinct (all_points qt)"
  shows "distinct (map conn_pair (indexed_connections ps cs qt i))"
    and "\<forall>c \<in> set (indexed_connections ps cs qt i). conn_p1 c = i \<and> i < conn_p2 c"
proof -
  let ?q = "query ps (Circle (vx (pos (ps ! i))) (vy (pos (ps ! i))) connectionDistance) qt []"
  have "distinct ?q" using query_mset assms by (rule distinct_mset_subseteq)
  then show "distinct (map conn_pair (indexed_connections ps cs qt i))"
    by (simp add: indexed_connections_eq comp_def distinct_map inj_on_def conn_pair_def
          drawConnection_def)
  show "\<forall>c \<in> set (indexed_connections ps cs qt i). conn_p1 c = i \<and> i < conn_p2 c"
    by (auto simp: indexed_connections_eq drawConnection_def indexOf_greater)
qed

lemma brute_pairs:
  shows "distinct (map conn_pair (brute_connections ps cs i))"
    and "\<forall>c \<in> set (brute_connections ps cs i). conn_p1 c = i \<and> i < conn_p2 c"
  by (auto simp: brute_connections_eq comp_def distinct_map inj_on_def conn_pair_def
        drawConnection_def)

lemma distinct_concat_upt:
  assumes "\<And>i. i < n \<Longrightarrow> distinct (map conn_pair (f i))"
    and "\<And>i. i < n \<Longrightarrow> \<forall>c \<in> set (f i). conn_p1 c = i"
  shows "distinct (map conn_pair (concat (map f [0 ..< n])))"
  using assms
proof (induction n)
  case 0
  show ?case by simp
next
  case (Suc n)
  have "distinct (map conn_pair (concat (map f [0 ..< n])))"
    using Suc.prems by (intro Suc.IH) simp_all
  moreover have "distinct (map conn_pair (f n))" using Suc.prems(1) by simp
  moreover have "set (map conn_pair (concat (map f [0 ..< n]))) \<inter> set (map conn_pair (f n)) = {}"
  proof -
    have "conn_p1 c < n" if "c \<in> set (concat (map f [0 ..< n]))" for c
    proof -
      from that obtain i where "i < n" "c \<in> set (f i)" by auto
      with Suc.prems(2) [of i] show ?thesis by simp
    qed
    moreover have "\<forall>c \<in> set (f n). conn_p1 c = n" using Suc.prems(2) by simp
    ultimately show ?thesis by (fastforce simp: conn_pair_def)
  qed
  ultimately show ?case by simp
qed


lemma dist_less_iff:
  "0 < r \<Longrightarrow> dist x1 y1 x2 y2 < r \<longleftrightarrow> (x2 - x1) * (x2 - x1) + (y2 - y1) * (y2 - y1) < r * r"
proof -
  assume r: "0 < r"
  have "dist x1 y1 x2 y2 < r \<longleftrightarrow> sqrt ((x2 - x1) * (x2 - x1) + (y2 - y1) * (y2 - y1)) < sqrt (r * r)"
    using r by (simp add: dist_def)
  then show ?thesis by (simp only: real_sqrt_less_iff)
qed

lemma pos_particle_at: "pos (particle_at x y u v) = createVector x y"
  by (simp add: particle_at_def)

lemmas draw_eval =
  step_connections_def indexed_connections_eq brute_connections_eq in_range_def pdist_def
  intersects_def Circle_def Boundary_def indexOf_def connectionDistance_def dist_less_iff
  nth_updated_upto pos_update_canvas pos_particle_at conn_pair_drawConnection vec_eval

lemma draw_pairs_indexed:
  assumes "build_quadtree canvas ps = Some qt"
  shows "map_option (map conn_pair \<circ> snd) (draw canvas angle (sketch_of ps True)) =
     Some (map conn_pair (concat (map
        (step_connections canvas False angle (js_rem (0 + 0.2) 360) True qt ps) [0 ..< length ps])))"
proof -
  have "(if useQuadtree (sketch_of ps True) then build_quadtree canvas (particles (sketch_of ps True))
         else Some (quadtree (sketch_of ps True))) = Some qt"
    using assms by (simp add: sketch_of_simps)
  from draw_eq [OF this] show ?thesis by (simp add: sketch_of_simps)
qed

lemma draw_pairs_brute:
  "map_option (map conn_pair \<circ> snd) (draw canvas angle (sketch_of ps False)) =
     Some (map conn_pair (concat (map
        (step_connections canvas False angle (js_rem (0 + 0.2) 360) False
           (QuadTree (root_boundary canvas) 4) ps) [0 ..< length ps])))"
proof -
  have "(if useQuadtree (sketch_of ps False) then build_quadtree canvas (particles (sketch_of ps False))
         else Some (quadtree (sketch_of ps False))) = Some (QuadTree (root_boundary canvas) 4)"
    by (simp add: sketch_of_simps)
  from draw_eq [OF this] show ?thesis by (simp add: sketch_of_simps)
qed

lemma near_pair_build:
  "build_quadtree canvas near_pair = Some (Leaf (Boundary 400 300 400 300) 4 [0, 1])"
  by (simp add: build_quadtree_def tree_eval Boundary_def near_pair_def particle_at_def createVector_def)

lemma near_pair_indexed:
  "map_option (map conn_pair \<circ> snd) (draw canvas (\<lambda>i. 0) (sketch_of near_pair True)) = Some [(0, 1)]"
  unfolding draw_pairs_indexed [OF near_pair_build]
  by (simp add: near_pair_def draw_eval)

lemma far_pair_build:
  "build_quadtree canvas far_pair = Some (Leaf (Boundary 400 300 400 300) 4 [0, 1])"
  by (simp add: build_quadtree_def tree_eval Boundary_def far_pair_def particle_at_def createVector_def)

lemma far_pair_indexed:
  "map_option (map conn_pair \<circ> snd) (draw canvas (\<lambda>i. 0) (sketch_of far_pair True)) = Some []"
  unfolding draw_pairs_indexed [OF far_pair_build]
  by (simp add: far_pair_def draw_eval)

lemma edge_pair_build:
  "build_quadtree canvas edge_pair = Some (Leaf (Boundary 400 300 400 300) 4 [0])"
  by (simp add: build_quadtree_def tree_eval Boundary_def edge_pair_def particle_at_def createVector_def)

text \<open>
  Claim C8.  For every state of the sketch and both settings of the index switch, \<open>draw\<close>
  returns, every connection it emits joins a particle to one of larger index (so no
  particle is joined to itself and no pair is emitted in both orders), and no pair of
  particles is emitted twice.
\<close>

theorem connection_pairs_unique:
  "\<exists>st' out. draw e angle st = Some (st', out) \<and>
     (\<forall>c \<in> set out. conn_p1 c < conn_p2 c) \<and> distinct (map conn_pair out)"
proof -
  let ?ps = "particles st" and ?cs = "js_rem (colorShift st + 0.2) 360"
  obtain qt where qt: "(if useQuadtree st then build_quadtree e ?ps else Some (quadtree st)) = Some qt"
    using build_quadtree_total [of e ?ps] by (cases "useQuadtree st") auto
  let ?f = "step_connections e (repulsionMode st) angle ?cs (useQuadtree st) qt ?ps"
  have d: "draw e angle st =
     Some (st\<lparr>particles := updated_upto e (repulsionMode st) angle ?ps (length ?ps),
              colorShift := ?cs, quadtree := qt\<rparr>, concat (map ?f [0 ..< length ?ps]))"
    by (rule draw_eq [OF qt])
  have step: "distinct (map conn_pair (?f i)) \<and> (\<forall>c \<in> set (?f i). conn_p1 c = i \<and> i < conn_p2 c)" for i
  proof (cases "useQuadtree st")
    case True
    with qt have "distinct (all_points qt)" using build_points(1) by simp
    from indexed_pairs [OF this] True show ?thesis by (simp add: step_connections_def)
  next
    case False
    with brute_pairs show ?thesis by (simp add: step_connections_def)
  qed
  have "distinct (map conn_pair (concat (map ?f [0 ..< length ?ps])))"
    using step by (intro distinct_concat_upt) simp_all
  moreover have "\<forall>c \<in> set (concat (map ?f [0 ..< length ?ps])). conn_p1 c < conn_p2 c"
    using step by auto
  ultimately show ?thesis using d by blast
qed


theorem connection_pairs_unique_witness:
  "map_option (map conn_pair \<circ> snd) (draw canvas (\<lambda>i. 0) (sketch_of near_pair True)) = Some [(0, 1)] \<and>
   (0::nat) < 1 \<and> distinct [(0::nat, 1::nat)]"
  using connection_pairs_unique [of canvas "\<lambda>i. 0" "sketch_of near_pair True"] near_pair_indexed
  by simp

section \<open>Indexed and brute-force neighbour discovery\<close>

text \<open>
  Claim C1 fails on the code.  Two particles 10 apart, the second exactly on the right
  edge \<open>x = width\<close>: the root of the index refuses the second particle, so the frame with
  the index emits no connection, while the frame without it emits the pair \<open>(0, 1)\<close>.
\<close>

theorem edge_particle_loses_connection:
  "vx (pos (edge_pair ! 1)) = width canvas \<and>
   map_option (map conn_pair \<circ> snd) (draw canvas (\<lambda>i. 0) (sketch_of edge_pair True)) = Some [] \<and>
   map_option (map conn_pair \<circ> snd) (draw canvas (\<lambda>i. 0) (sketch_of edge_pair False)) = Some [(0, 1)]"
  unfolding draw_pairs_indexed [OF edge_pair_build] draw_pairs_brute
  by (simp add: edge_pair_def draw_eval)

lemma quadrants_cover:
  assumes "contains b p"
  shows "contains (Boundary (b_x b + b_w b / 2) (b_y b - b_h b / 2) (b_w b / 2) (b_h b / 2)) p \<or>
         contains (Boundary (b_x b - b_w b / 2) (b_y b - b_h b / 2) (b_w b / 2) (b_h b / 2)) p \<or>
         contains (Boundary (b_x b + b_w b / 2) (b_y b + b_h b / 2) (b_w b / 2) (b_h b / 2)) p \<or>
         contains (Boundary (b_x b - b_w b / 2) (b_y b + b_h b / 2) (b_w b / 2) (b_h b / 2)) p"
  using assms unfolding contains_def Boundary_def by (simp add: field_simps) linarith

lemma descend_quad_inv:
  assumes "descend t = Divided b c pts ne nw se sw" "quad_inv t"
  shows "quad_inv (Divided b c pts ne nw se sw)"
  using assms by (cases t) (auto simp: descend_def subdivide_def Let_def QuadTree_def)

lemma insert_quad_inv_aux:
  assumes "insert ps r t = Some y"
  shows "boundary_of (snd y) = boundary_of t \<and> (quad_inv t \<longrightarrow> quad_inv (snd y))"
  using assms
proof (induction rule: insert_induct)
  case (outside t)
  show ?case by simp
next
  case (room t)
  show ?case by (cases t) simp_all
next
  case (ne t b c pts ne nw se sw ne')
  from ne descend_quad_inv [of t b c pts ne nw se sw] descend_props [of t b c pts ne nw se sw]
  show ?case by simp
next
  case (nw t b c pts ne nw se sw ne' nw')
  from nw descend_quad_inv [of t b c pts ne nw se sw] descend_props [of t b c pts ne nw se sw]
  show ?case by simp
next
  case (se t b c pts ne nw se sw ne' nw' se')
  from se descend_quad_inv [of t b c pts ne nw se sw] descend_props [of t b c pts ne nw se sw]
  show ?case by simp
next
  case (sw t b c pts ne nw se sw ne' nw' se' sw' ok)
  from sw descend_quad_inv [of t b c pts ne nw se sw] descend_props [of t b c pts ne nw se sw]
  show ?case by simp
qed

lemma kids_accepts:
  assumes "f ne = Some (o1, ne')" "f nw = Some (o2, nw')" "f se = Some (o3, se')" "f sw = Some (o4, sw')"
    and "o1 \<or> o2 \<or> o3 \<or> o4"
  shows "\<exists>t'. kids f (Divided b c pts ne nw se sw) = Some (True, t')"
  using assms by (auto simp: kids_def)

lemma insert_Some_pair: "node_inv t \<Longrightarrow> 0 < capacity t \<Longrightarrow> \<exists>ok t'. insert ps r t = Some (ok, t')"
  using insert_total [of t ps r] by (cases "insert ps r t") auto

lemma insert_accepts:
  "node_inv t \<Longrightarrow> quad_inv t \<Longrightarrow> 0 < capacity t \<Longrightarrow> contains (boundary_of t) (ps ! r) \<Longrightarrow>
   \<exists>t'. insert ps r t = Some (True, t')"
proof (induction t)
  case (Leaf b c pts)
  show ?case
  proof (cases "length pts < c")
    case True
    with Leaf.prems show ?thesis by (simp add: insert_room)
  next
    case False
    with Leaf.prems have full: "full_at ps r (Leaf b c pts)" by (simp add: full_at_def)
    let ?ne = "Boundary (b_x b + b_w b / 2) (b_y b - b_h b / 2) (b_w b / 2) (b_h b / 2)"
    let ?nw = "Boundary (b_x b - b_w b / 2) (b_y b - b_h b / 2) (b_w b / 2) (b_h b / 2)"
    let ?se = "Boundary (b_x b + b_w b / 2) (b_y b + b_h b / 2) (b_w b / 2) (b_h b / 2)"
    let ?sw = "Boundary (b_x b - b_w b / 2) (b_y b + b_h b / 2) (b_w b / 2) (b_h b / 2)"
    have d: "descend (Leaf b c pts) =
       Divided b c pts (QuadTree ?ne c) (QuadTree ?nw c) (QuadTree ?se c) (QuadTree ?sw c)"
      by (simp add: descend_def subdivide_def Let_def)
    have fresh: "insert ps r (QuadTree x c) =
       Some (contains x (ps ! r), if contains x (ps ! r) then Leaf x c [r] else QuadTree x c)" for x
      using Leaf.prems(3)
      by (cases "contains x (ps ! r)") (simp_all add: insert_outside insert_room QuadTree_def)
    from Leaf.prems(4) quadrants_cover [of b "ps ! r"]
    have "contains ?ne (ps ! r) \<or> contains ?nw (ps ! r) \<or> contains ?se (ps ! r) \<or> contains ?sw (ps ! r)"
      by simp
    from kids_accepts [OF fresh fresh fresh fresh this]
    show ?thesis unfolding insert_full [OF full] d .
  qed
next
  case (Divided b c pts ne nw se sw)
  from Divided.prems have full: "full_at ps r (Divided b c pts ne nw se sw)"
    by (simp add: full_at_def)
  have d: "descend (Divided b c pts ne nw se sw) = Divided b c pts ne nw se sw"
    by (simp add: descend_def)
  from Divided.prems have caps: "0 < capacity ne" "0 < capacity nw" "0 < capacity se" "0 < capacity sw"
    and invs: "node_inv ne" "node_inv nw" "node_inv se" "node_inv sw"
    and qs: "quad_inv ne" "quad_inv nw" "quad_inv se" "quad_inv sw"
    by simp_all
  obtain o1 ne' where 1: "insert ps r ne = Some (o1, ne')"
    using insert_Some_pair [OF invs(1) caps(1)] by blast
  obtain o2 nw' where 2: "insert ps r nw = Some (o2, nw')"
    using insert_Some_pair [OF invs(2) caps(2)] by blast
  obtain o3 se' where 3: "insert ps r se = Some (o3, se')"
    using insert_Some_pair [OF invs(3) caps(3)] by blast
  obtain o4 sw' where 4: "insert ps r sw = Some (o4, sw')"
    using insert_Some_pair [OF invs(4) caps(4)] by blast
  from Divided.prems(2,4) quadrants_cover [of b "ps ! r"]
  have "contains (boundary_of ne) (ps ! r) \<or> contains (boundary_of nw) (ps ! r) \<or>
        contains (boundary_of se) (ps ! r) \<or> contains (boundary_of sw) (ps ! r)"
    by simp
  then have "o1 \<or> o2 \<or> o3 \<or> o4"
    using Divided.IH(1) [OF invs(1) qs(1) caps(1)] Divided.IH(2) [OF invs(2) qs(2) caps(2)]
      Divided.IH(3) [OF invs(3) qs(3) caps(3)] Divided.IH(4) [OF invs(4) qs(4) caps(4)] 1 2 3 4
    by auto
  from kids_accepts [OF 1 2 3 4 this]
  show ?case unfolding insert_full [OF full] d .
qed


text \<open>
  The recursion has no bound: into a node of capacity 0 whose boundary contains the
  particle, \<open>insert\<close> does not return.  (\<open>draw\<close> always constructs the index with capacity 4.)
\<close>

lemma insert_capacity_0_aux:
  assumes "insert ps r t = Some y"
  shows "\<not> (node_inv t \<and> quad_inv t \<and> capacity t = 0 \<and> contains (boundary_of t) (ps ! r))"
  using assms
proof (induction rule: insert_induct)
  case (outside t)
  then show ?case by simp
next
  case (room t)
  then show ?case by simp
next
  case (ne t b c pts ne nw se sw ne')
  show ?case
  proof
    assume a: "node_inv t \<and> quad_inv t \<and> capacity t = 0 \<and> contains (boundary_of t) (ps ! r)"
    from descend_kids_inv [OF ne(2)] descend_quad_inv [OF ne(2)] descend_props [OF ne(2)] a
    have "node_inv ne \<and> quad_inv ne \<and> capacity ne = 0" by simp
    with ne have "\<not> contains (boundary_of ne) (ps ! r)" by simp
    then have "insert ps r ne = Some (False, ne)" by (rule insert_outside)
    with ne show False by simp
  qed
next
  case (nw t b c pts ne nw se sw ne' nw')
  show ?case
  proof
    assume a: "node_inv t \<and> quad_inv t \<and> capacity t = 0 \<and> contains (boundary_of t) (ps ! r)"
    from descend_kids_inv [OF nw(2)] descend_quad_inv [OF nw(2)] descend_props [OF nw(2)] a
    have "node_inv nw \<and> quad_inv nw \<and> capacity nw = 0" by simp
    with nw have "\<not> contains (boundary_of nw) (ps ! r)" by simp
    then have "insert ps r nw = Some (False, nw)" by (rule insert_outside)
    with nw show False by simp
  qed
next
  case (se t b c pts ne nw se sw ne' nw' se')
  show ?case
  proof
    assume a: "node_inv t \<and> quad_inv t \<and> capacity t = 0 \<and> contains (boundary_of t) (ps ! r)"
    from descend_kids_inv [OF se(2)] descend_quad_inv [OF se(2)] descend_props [OF se(2)] a
    have "node_inv se \<and> quad_inv se \<and> capacity se = 0" by simp
    with se have "\<not> contains (boundary_of se) (ps ! r)" by simp
    then have "insert ps r se = Some (False, se)" by (rule insert_outside)
    with se show False by simp
  qed
next
  case (sw t b c pts ne nw se sw ne' nw' se' sw' ok)
  show ?case
  proof
    assume a: "node_inv t \<and> quad_inv t \<and> capacity t = 0 \<and> contains (boundary_of t) (ps ! r)"
    from descend_kids_inv [OF sw(2)] descend_quad_inv [OF sw(2)] descend_props [OF sw(2)] a
    have k: "node_inv ne \<and> quad_inv ne \<and> capacity ne = 0" "node_inv nw \<and> quad_inv nw \<and> capacity nw = 0"
      "node_inv se \<and> quad_inv se \<and> capacity se = 0" "node_inv sw \<and> quad_inv sw \<and> capacity sw = 0"
      and q: "quad_inv (Divided b c pts ne nw se sw)" and b: "b = boundary_of t"
      by simp_all
    from k sw have "\<not> contains (boundary_of ne) (ps ! r)" "\<not> contains (boundary_of nw) (ps ! r)"
      "\<not> contains (boundary_of se) (ps ! r)" "\<not> contains (boundary_of sw) (ps ! r)"
      by simp_all
    moreover from a b have "contains b (ps ! r)" by simp
    ultimately show False using q quadrants_cover [of b "ps ! r"] by simp
  qed
qed

lemma insert_capacity_0_diverges:
  "node_inv t \<Longrightarrow> quad_inv t \<Longrightarrow> capacity t = 0 \<Longrightarrow> contains (boundary_of t) (ps ! r) \<Longrightarrow>
   insert ps r t = None"
  using insert_capacity_0_aux [of ps r t] by (cases "insert ps r t") auto

lemma insert_empty_capacity_0:
  "contains b (ps ! r) \<Longrightarrow> insert ps r (QuadTree b 0) = None"
  by (rule insert_capacity_0_diverges) (simp_all add: QuadTree_def)

lemma stored_cong: "ps ! r = ps' ! r \<Longrightarrow> stored ps r t = stored ps' r t"
  by (induction t) simp_all

lemma stored_descend: "stored ps q t \<Longrightarrow> stored ps q (descend t)"
  by (cases t) (simp_all add: descend_def subdivide_def Let_def)

lemma stored_push: "stored ps q t \<Longrightarrow> stored ps q (push_point r t)"
  by (cases t) auto

text \<open>What is stored stays stored, whatever the array it is looked up in.\<close>

lemma insert_keeps_stored_aux:
  assumes "insert ps r t = Some y"
  shows "stored ps' q t \<longrightarrow> stored ps' q (snd y)"
  using assms
proof (induction rule: insert_induct)
  case (outside t)
  show ?case by simp
next
  case (room t)
  show ?case by (simp add: stored_push)
next
  case (ne t b c pts ne nw se sw ne')
  from ne stored_descend [of ps' q t] show ?case by auto
next
  case (nw t b c pts ne nw se sw ne' nw')
  from nw stored_descend [of ps' q t] show ?case by auto
next
  case (se t b c pts ne nw se sw ne' nw' se')
  from se stored_descend [of ps' q t] show ?case by auto
next
  case (sw t b c pts ne nw se sw ne' nw' se' sw' ok)
  from sw stored_descend [of ps' q t] show ?case by auto
qed

lemma insert_stores_aux:
  assumes "insert ps r t = Some y"
  shows "fst y \<longrightarrow> stored ps r (snd y)"
  using assms
proof (induction rule: insert_induct)
  case (outside t)
  show ?case by simp
next
  case (room t)
  then show ?case by (cases t) simp_all
next
  case (ne t b c pts ne nw se sw ne')
  from ne descend_props [of t b c pts ne nw se sw] show ?case by (simp add: full_at_def)
next
  case (nw t b c pts ne nw se sw ne' nw')
  from nw descend_props [of t b c pts ne nw se sw] show ?case by (simp add: full_at_def)
next
  case (se t b c pts ne nw se sw ne' nw' se')
  from se descend_props [of t b c pts ne nw se sw] show ?case by (simp add: full_at_def)
next
  case (sw t b c pts ne nw se sw ne' nw' se' sw' ok)
  from sw descend_props [of t b c pts ne nw se sw] show ?case by (simp add: full_at_def)
qed

lemma insert_all_stores:
  assumes "insert_all ps rs t = Some t'"
    and "node_inv t" "quad_inv t" "0 < capacity t"
    and "\<forall>r \<in> set rs. contains (boundary_of t) (ps ! r)"
  shows "(\<forall>r \<in> set rs. stored ps r t') \<and> (\<forall>q. stored ps q t \<longrightarrow> stored ps q t')"
  using assms
proof (induction rs arbitrary: t)
  case Nil
  then show ?case by simp
next
  case (Cons r rs)
  from Cons.prems(5) have c: "contains (boundary_of t) (ps ! r)" by simp
  from insert_accepts [OF Cons.prems(2,3,4) c] obtain t1 where t1: "insert ps r t = Some (True, t1)"
    by blast
  with Cons.prems(1) have rest: "insert_all ps rs t1 = Some t'" by simp
  from insert_node_inv [OF t1 Cons.prems(2)] Cons.prems(4)
  have n1: "node_inv t1" and c1: "0 < capacity t1" by simp_all
  from insert_quad_inv_aux [OF t1] Cons.prems(3)
  have q1: "quad_inv t1" and b1: "boundary_of t1 = boundary_of t" by simp_all
  from Cons.prems(5) b1 have all: "\<forall>r \<in> set rs. contains (boundary_of t1) (ps ! r)" by simp
  from Cons.IH [OF rest n1 q1 c1 all]
  have IH: "\<forall>r \<in> set rs. stored ps r t'" "\<And>q. stored ps q t1 \<Longrightarrow> stored ps q t'" by simp_all
  from insert_stores_aux [OF t1] have "stored ps r t1" by simp
  with IH(2) have "stored ps r t'" by simp
  moreover have "stored ps q t \<longrightarrow> stored ps q t'" for q
    using insert_keeps_stored_aux [OF t1, of ps q] IH(2) by simp
  ultimately show ?case using IH(1) by simp
qed

lemma build_stores:
  assumes "build_quadtree e ps = Some qt"
    and "\<forall>p \<in> set ps. contains (root_boundary e) p"
  shows "\<forall>r < length ps. stored ps r qt"
proof -
  have "\<forall>r \<in> set [0 ..< length ps]. contains (boundary_of (QuadTree (root_boundary e) 4)) (ps ! r)"
    using assms(2) by (simp add: QuadTree_def)
  from insert_all_stores [OF assms(1) [unfolded build_quadtree_def] _ _ _ this]
  show ?thesis by (simp add: QuadTree_def)
qed

lemma in_range_intersects:
  assumes "contains b (ps ! r)" "in_range ps rng r"
  shows "intersects b rng"
proof -
  from assms(1) have
    "b_x b - b_w b \<le> vx (pos (ps ! r))" "vx (pos (ps ! r)) \<le> b_x b + b_w b"
    "b_y b - b_h b \<le> vy (pos (ps ! r))" "vy (pos (ps ! r)) \<le> b_y b + b_h b"
    by (simp_all add: contains_def)
  moreover from assms(2)
  have "dist (c_x rng) (c_y rng) (vx (pos (ps ! r))) (vy (pos (ps ! r))) \<le> c_r rng"
    by (simp add: in_range_def)
  ultimately show ?thesis
    using dist_ge_dx [of "vx (pos (ps ! r))" "c_x rng" "c_y rng" "vy (pos (ps ! r))"]
      dist_ge_dy [of "vy (pos (ps ! r))" "c_y rng" "c_x rng" "vx (pos (ps ! r))"]
    unfolding intersects_def by linarith
qed

lemma query_complete:
  "stored ps r t \<Longrightarrow> in_range ps rng r \<Longrightarrow> r \<in> set (query ps rng t [])"
proof (induction t)
  case (Leaf b c pts)
  then show ?case using in_range_intersects [of b ps r rng] by auto
next
  case (Divided b c pts ne nw se sw)
  from Divided.prems have "intersects b rng"
    using in_range_intersects [of b ps r rng] by simp
  with Divided show ?case unfolding query_Divided by auto
qed


lemma query_sound:
  "x \<in> set (query ps rng t []) \<Longrightarrow> x \<in> set (all_points t) \<and> in_range ps rng x"
  using set_mset_mono [OF query_mset [of ps rng t]] query_in_range [of x ps rng t] by auto

lemma in_range_pdist:
  "in_range ps (Circle (vx (pos (ps ! i))) (vy (pos (ps ! i))) connectionDistance) j \<longleftrightarrow>
   pdist ps i j < connectionDistance"
  by (simp add: in_range_def pdist_def Circle_def)

lemma step_indexed_eq_brute:
  assumes pts: "set (all_points qt) \<subseteq> {0 ..< length ps}"
    and st: "\<forall>j. i < j \<and> j < length ps \<longrightarrow> stored ps j qt"
  shows "set (indexed_connections ps cs qt i) = set (brute_connections ps cs i)"
proof -
  let ?rng = "Circle (vx (pos (ps ! i))) (vy (pos (ps ! i))) connectionDistance"
  have "{nb \<in> set (query ps ?rng qt []).
           \<not> (nb = i \<or> indexOf ps nb \<le> int i) \<and> pdist ps i nb < connectionDistance}
        = {j \<in> set [i + 1 ..< length ps]. pdist ps i j < connectionDistance}" (is "?A = ?B")
  proof (intro set_eqI iffI)
    fix x assume "x \<in> ?A"
    then show "x \<in> ?B" by (auto simp: indexOf_greater)
  next
    fix x assume "x \<in> ?B"
    then have x: "i < x" "x < length ps" "pdist ps i x < connectionDistance" by auto
    with st have "stored ps x qt" by simp
    moreover from x(3) have "in_range ps ?rng x" by (simp add: in_range_pdist)
    ultimately have "x \<in> set (query ps ?rng qt [])" by (rule query_complete)
    with x show "x \<in> ?A" by (simp add: indexOf_greater)
  qed
  then show ?thesis
    by (simp add: indexed_connections_eq brute_connections_eq)
qed

text \<open>
  When every particle is contained in the root boundary at the start of the frame, the
  frame with the index and the frame without it update the particles alike and emit the
  same set of connections.
\<close>

theorem indexed_equals_brute_force:
  assumes inside: "\<forall>p \<in> set (particles st). contains (root_boundary e) p"
  shows "\<exists>s1 out1 s2 out2.
     draw e angle (st\<lparr>useQuadtree := True\<rparr>) = Some (s1, out1) \<and>
     draw e angle (st\<lparr>useQuadtree := False\<rparr>) = Some (s2, out2) \<and>
     particles s1 = particles s2 \<and> set out1 = set out2"
proof -
  let ?ps = "particles st" and ?cs = "js_rem (colorShift st + 0.2) 360"
  let ?rep = "repulsionMode st"
  obtain qt where qt: "build_quadtree e ?ps = Some qt"
    using build_quadtree_total [of e ?ps] by blast
  have b1: "(if useQuadtree (st\<lparr>useQuadtree := True\<rparr>)
             then build_quadtree e (particles (st\<lparr>useQuadtree := True\<rparr>))
             else Some (quadtree (st\<lparr>useQuadtree := True\<rparr>))) = Some qt"
    using qt by simp
  have b2: "(if useQuadtree (st\<lparr>useQuadtree := False\<rparr>)
             then build_quadtree e (particles (st\<lparr>useQuadtree := False\<rparr>))
             else Some (quadtree (st\<lparr>useQuadtree := False\<rparr>))) = Some (quadtree st)"
    by simp
  have step: "set (step_connections e ?rep angle ?cs True qt ?ps i) =
              set (step_connections e ?rep angle ?cs False (quadtree st) ?ps i)"
    if i: "i < length ?ps" for i
  proof -
    let ?S = "updated_upto e ?rep angle ?ps (Suc i)"
    have "set (all_points qt) \<subseteq> {0 ..< length ?S}"
      using build_points(2) [OF qt] by simp
    moreover have "\<forall>j. i < j \<and> j < length ?S \<longrightarrow> stored ?S j qt"
    proof (intro allI impI)
      fix j assume j: "i < j \<and> j < length ?S"
      then have "stored ?ps j qt" using build_stores [OF qt inside] by simp
      moreover have "?S ! j = ?ps ! j" using j by (simp add: nth_updated_upto)
      ultimately show "stored ?S j qt" using stored_cong [of ?S j ?ps qt] by simp
    qed
    ultimately show ?thesis
      unfolding step_connections_def using step_indexed_eq_brute [of qt ?S i ?cs] by simp
  qed
  have "set (concat (map (step_connections e ?rep angle ?cs True qt ?ps) [0 ..< length ?ps])) =
        set (concat (map (step_connections e ?rep angle ?cs False (quadtree st) ?ps) [0 ..< length ?ps]))"
    using step by auto
  with draw_eq [OF b1, of angle] draw_eq [OF b2, of angle] show ?thesis by simp
qed

theorem indexed_equals_brute_force_witness:
  "(\<forall>p \<in> set (particles (sketch_of near_pair True)). contains (root_boundary canvas) p) \<and>
   map_option (map conn_pair \<circ> snd) (draw canvas (\<lambda>i. 0) (sketch_of near_pair True)) = Some [(0, 1)] \<and>
   map_option (map conn_pair \<circ> snd) (draw canvas (\<lambda>i. 0) (sketch_of near_pair False)) = Some [(0, 1)]"
proof -
  have "\<forall>p \<in> set (particles (sketch_of near_pair True)). contains (root_boundary canvas) p"
    by (simp add: sketch_of_simps near_pair_def contains_def canvas_simps Boundary_def pos_particle_at
          createVector_def)
  moreover have "map_option (map conn_pair \<circ> snd) (draw canvas (\<lambda>i. 0) (sketch_of near_pair False)) =
      Some [(0, 1)]"
    unfolding draw_pairs_brute by (simp add: near_pair_def draw_eval)
  ultimately show ?thesis
    using indexed_equals_brute_force [of "sketch_of near_pair True" canvas "\<lambda>i. 0"] near_pair_indexed
    by simp
qed

end
